theory Spec2Isabelle
  imports Complex_Main "HOL-Library.Word" "HOL-Library.Log_Nat" "HOL-Library.Product_Lexorder"
    "HOL-Library.Multiset"
begin

unbundle bit_operations_syntax

section \<open>JavaScript numbers\<close>

text \<open>
  A JavaScript number is a finite value, one of the two infinities, or NaN. The special
  values follow IEEE 754 as ECMAScript prescribes them, because the clamping of the HTTP
  route, the unguarded logarithm and division of the MCP function and the comparisons of
  both depend on them. The two zeros are one value.

  A finite value is a real. Addition, subtraction, multiplication and division overflow
  as binary64 does under rounding to nearest: a result whose magnitude reaches
  \<open>2^1024 - 2^970\<close>, half a unit in the last place above the largest double, is the
  infinity of its sign. Below that bound a result is the exact real: the rounding to 53
  significant bits and the underflow are not part of the model.
\<close>

datatype jsnum = Fin real | PInf | NInf | NaN

fun isNaN :: "jsnum \<Rightarrow> bool" where
  "isNaN NaN = True"
| "isNaN _ = False"

fun js_neg :: "jsnum \<Rightarrow> jsnum" where
  "js_neg (Fin a) = Fin (- a)"
| "js_neg PInf = NInf"
| "js_neg NInf = PInf"
| "js_neg NaN = NaN"

definition overflow :: real where
  "overflow = 2 ^ 1024 - 2 ^ 970"

definition js_result :: "real \<Rightarrow> jsnum" where
  "js_result x = (if overflow \<le> x then PInf else if x \<le> - overflow then NInf else Fin x)"

text \<open>The least double above 0.\<close>

definition least_positive :: real where
  "least_positive = 1 / 2 ^ 1074"

fun js_add :: "jsnum \<Rightarrow> jsnum \<Rightarrow> jsnum" where
  "js_add NaN _ = NaN"
| "js_add _ NaN = NaN"
| "js_add (Fin a) (Fin b) = js_result (a + b)"
| "js_add PInf NInf = NaN"
| "js_add NInf PInf = NaN"
| "js_add PInf _ = PInf"
| "js_add NInf _ = NInf"
| "js_add (Fin a) PInf = PInf"
| "js_add (Fin a) NInf = NInf"

definition js_sub :: "jsnum \<Rightarrow> jsnum \<Rightarrow> jsnum" where
  "js_sub a b = js_add a (js_neg b)"

text \<open>The sign of a number that is not NaN, as \<open>-1\<close>, \<open>0\<close> or \<open>1\<close>.\<close>

fun js_sign :: "jsnum \<Rightarrow> real" where
  "js_sign (Fin a) = sgn a"
| "js_sign PInf = 1"
| "js_sign NInf = - 1"
| "js_sign NaN = 0"

definition signed_inf :: "real \<Rightarrow> jsnum" where
  "signed_inf s = (if s = 0 then NaN else if 0 < s then PInf else NInf)"

fun js_mul :: "jsnum \<Rightarrow> jsnum \<Rightarrow> jsnum" where
  "js_mul NaN _ = NaN"
| "js_mul _ NaN = NaN"
| "js_mul (Fin a) (Fin b) = js_result (a * b)"
| "js_mul a b = signed_inf (js_sign a * js_sign b)"

text \<open>
  Division by a zero gives an infinity (or NaN for \<open>0/0\<close>), never an exception. The
  divisor zero is taken as \<open>+0\<close>; with \<open>-0\<close> the infinity has the other sign, which
  the only such division of the program discards through \<open>Math.abs\<close>.
\<close>

fun js_div :: "jsnum \<Rightarrow> jsnum \<Rightarrow> jsnum" where
  "js_div NaN _ = NaN"
| "js_div _ NaN = NaN"
| "js_div (Fin a) (Fin b) = (if b = 0 then signed_inf a else js_result (a / b))"
| "js_div (Fin a) _ = Fin 0"
| "js_div a (Fin b) = signed_inf (js_sign a * (if b < 0 then - 1 else 1))"
| "js_div _ _ = NaN"

fun js_lt :: "jsnum \<Rightarrow> jsnum \<Rightarrow> bool" where
  "js_lt NaN _ = False"
| "js_lt _ NaN = False"
| "js_lt (Fin a) (Fin b) = (a < b)"
| "js_lt NInf NInf = False"
| "js_lt NInf _ = True"
| "js_lt _ NInf = False"
| "js_lt PInf _ = False"
| "js_lt _ PInf = True"

definition js_gt :: "jsnum \<Rightarrow> jsnum \<Rightarrow> bool" where
  "js_gt a b = js_lt b a"

text \<open>\<open>a <= b\<close> and \<open>a >= b\<close>: false as soon as an operand is NaN.\<close>

definition js_le :: "jsnum \<Rightarrow> jsnum \<Rightarrow> bool" where
  "js_le a b = (\<not> isNaN a \<and> \<not> isNaN b \<and> \<not> js_lt b a)"

definition js_ge :: "jsnum \<Rightarrow> jsnum \<Rightarrow> bool" where
  "js_ge a b = js_le b a"

text \<open>\<open>Math.max\<close> and \<open>Math.min\<close> of two arguments: NaN if either is NaN.\<close>

definition js_max :: "jsnum \<Rightarrow> jsnum \<Rightarrow> jsnum" where
  "js_max a b = (if isNaN a \<or> isNaN b then NaN else if js_lt a b then b else a)"

definition js_min :: "jsnum \<Rightarrow> jsnum \<Rightarrow> jsnum" where
  "js_min a b = (if isNaN a \<or> isNaN b then NaN else if js_lt b a then b else a)"

fun js_abs :: "jsnum \<Rightarrow> jsnum" where
  "js_abs (Fin a) = Fin \<bar>a\<bar>"
| "js_abs NaN = NaN"
| "js_abs _ = PInf"

fun js_floor :: "jsnum \<Rightarrow> jsnum" where
  "js_floor (Fin a) = Fin (of_int \<lfloor>a\<rfloor>)"
| "js_floor x = x"

fun js_sqrt :: "jsnum \<Rightarrow> jsnum" where
  "js_sqrt (Fin a) = (if a < 0 then NaN else Fin (sqrt a))"
| "js_sqrt PInf = PInf"
| "js_sqrt _ = NaN"

fun js_log :: "jsnum \<Rightarrow> jsnum" where
  "js_log (Fin a) = (if a < 0 then NaN else if a = 0 then NInf else Fin (ln a))"
| "js_log PInf = PInf"
| "js_log _ = NaN"

fun js_cos :: "jsnum \<Rightarrow> jsnum" where
  "js_cos (Fin a) = Fin (cos a)"
| "js_cos _ = NaN"

text \<open>\<open>x ?? d\<close>: the default replaces \<open>null\<close> and \<open>undefined\<close> only.\<close>

fun nullish :: "'a option \<Rightarrow> 'a \<Rightarrow> 'a" where
  "nullish None d = d"
| "nullish (Some x) d = x"

section \<open>The HTTP simulation route\<close>

subsection \<open>Request and response\<close>

text \<open>
  A numeric field of the request body is \<open>None\<close> when it is missing or \<open>null\<close>, and
  otherwise the number that \<open>Number\<close> (or \<open>Math.floor\<close>) coerces it to. \<open>enabled\<close> is
  the truthiness of the field; an entry of the array that is \<open>null\<close> counts as not
  enabled, as \<open>a?.enabled\<close> makes it. \<open>seed\<close> is \<open>Some\<close> exactly when
  \<open>typeof body.seed\<close> is \<open>number\<close>. A body whose \<open>assumptions\<close> is not an array has
  the empty list.
\<close>

record assumption =
  a_id :: string
  a_name :: string
  mean :: "jsnum option"
  std :: "jsnum option"
  weight :: "jsnum option"
  direction :: string
  enabled :: bool

record sim_request =
  assumptions :: "assumption list"
  iterations :: "jsnum option"
  threshold :: "jsnum option"
  seed :: "jsnum option"

datatype label = LOW | MEDIUM | HIGH

record sim_response =
  r_iterations :: jsnum
  probabilitySuccess :: jsnum
  r_label :: label
  summary_threshold :: jsnum
  summary_enabledCount :: nat

subsection \<open>clamp\<close>

definition clamp :: "jsnum \<Rightarrow> jsnum \<Rightarrow> jsnum \<Rightarrow> jsnum" where
  "clamp n lo hi = (if isNaN n then lo else js_max lo (js_min hi n))"

subsection \<open>Uniform sources\<close>

text \<open>
  \<open>Math.random\<close> is the environment's: a sequence of reals, of which each call takes
  the next. ECMAScript promises values in \<open>[0, 1)\<close>; theorems that need the range
  assume it of the sequence.
\<close>

type_synonym random_source = "nat \<Rightarrow> real"

definition Math_random :: "random_source \<Rightarrow> real \<times> random_source" where
  "Math_random src = (src 0, \<lambda>n. src (Suc n))"

text \<open>A source whose values are all doubles strictly between 0 and 1.\<close>

definition unit_open :: "random_source \<Rightarrow> bool" where
  "unit_open src \<longleftrightarrow> (\<forall>n. least_positive \<le> src n \<and> src n < 1)"

text \<open>
  \<open>seed >>> 0\<close>: NaN and the infinities give 0, a finite number is truncated towards
  zero and reduced modulo \<open>2^32\<close>.
\<close>

fun to_uint32 :: "jsnum \<Rightarrow> nat" where
  "to_uint32 (Fin a) = nat ((if 0 \<le> a then \<lfloor>a\<rfloor> else - \<lfloor>- a\<rfloor>) mod 2 ^ 32)"
| "to_uint32 _ = 0"

text \<open>
  The closure variable \<open>t\<close> of \<open>mulberry32\<close> is a number, and \<open>t += 0x6D2B79F5\<close> is a
  number addition: nothing reduces \<open>t\<close> to 32 bits. It stays a non-negative integer,
  exact below \<open>2^53\<close> and rounded to 53 significant bits (ties to even) above.
  The bit operations read it modulo \<open>2^32\<close>.
\<close>

definition round53 :: "nat \<Rightarrow> nat" where
  "round53 n =
     (if n < 2 ^ 53 then n
      else let e = floorlog 2 n - 53; q = n div 2 ^ e; r = n mod 2 ^ e; h = 2 ^ (e - 1)
           in if r < h \<or> (r = h \<and> even q) then q * 2 ^ e else (q + 1) * 2 ^ e)"

definition mulberry32_out :: "32 word \<Rightarrow> 32 word" where
  "mulberry32_out t =
     (let x = (t XOR drop_bit 15 t) * (1 OR t);
          x = x XOR (x + (x XOR drop_bit 7 x) * (61 OR x))
      in x XOR drop_bit 14 x)"

definition mulberry32_call :: "nat \<Rightarrow> real \<times> nat" where
  "mulberry32_call t =
     (let t = round53 (t + 0x6D2B79F5)
      in (real (unat (mulberry32_out (of_nat t))) / 4294967296, t))"

datatype rng = Mulberry32 nat | System random_source

definition mulberry32 :: "jsnum \<Rightarrow> rng" where
  "mulberry32 s = Mulberry32 (to_uint32 s)"

fun rng_call :: "rng \<Rightarrow> real \<times> rng" where
  "rng_call (Mulberry32 t) = (let (u, t') = mulberry32_call t in (u, Mulberry32 t'))"
| "rng_call (System src) = (let (u, src') = Math_random src in (u, System src'))"

subsection \<open>randn\<close>

text \<open>
  \<open>while (u === 0) u = rng();\<close> with \<open>u\<close> starting at 0: draw, and draw again as long
  as the draw is 0. Nothing bounds the number of draws, so the result is \<open>None\<close> when
  the source gives 0 for ever.
\<close>

partial_function (option) draw_nonzero :: "rng \<Rightarrow> (real \<times> rng) option" where
  "draw_nonzero g = (let (u, g') = rng_call g in if u = 0 then draw_nonzero g' else Some (u, g'))"

definition box_muller :: "jsnum \<Rightarrow> jsnum \<Rightarrow> jsnum" where
  "box_muller u v =
     js_mul (js_sqrt (js_mul (Fin (- 2)) (js_log u)))
            (js_cos (js_mul (js_mul (Fin 2) (Fin pi)) v))"

definition randn :: "rng \<Rightarrow> (jsnum \<times> rng) option" where
  "randn g =
     Option.bind (draw_nonzero g) (\<lambda>(u, g1).
     Option.bind (draw_nonzero g1) (\<lambda>(v, g2).
     Some (box_muller (Fin u) (Fin v), g2)))"

subsection \<open>POST\<close>

definition eff_mean :: "assumption \<Rightarrow> jsnum" where
  "eff_mean a = clamp (nullish (mean a) (Fin 0)) (Fin (- 1000000)) (Fin 1000000)"

definition eff_std :: "assumption \<Rightarrow> jsnum" where
  "eff_std a = clamp (nullish (std a) (Fin 0)) (Fin 0) (Fin 1000000)"

definition eff_weight :: "assumption \<Rightarrow> jsnum" where
  "eff_weight a = clamp (nullish (weight a) (Fin 1)) (Fin 0) (Fin 1000000)"

definition sign :: "assumption \<Rightarrow> jsnum" where
  "sign a = (if direction a = ''negative'' then Fin (- 1) else Fin 1)"

text \<open>The inner loop: one trial's score, with the generator threaded through.\<close>

fun trial_score :: "assumption list \<Rightarrow> jsnum \<Rightarrow> rng \<Rightarrow> (jsnum \<times> rng) option" where
  "trial_score [] score g = Some (score, g)"
| "trial_score (a # as) score g =
     Option.bind (randn g) (\<lambda>(z, g').
       let sample = js_add (eff_mean a) (js_mul (eff_std a) z)
       in trial_score as (js_add score (js_mul (js_mul (sign a) (eff_weight a)) sample)) g')"

text \<open>The outer loop, \<open>for (let i = 0; i < iterations; i++)\<close>.\<close>

partial_function (option) trials ::
  "jsnum \<Rightarrow> jsnum \<Rightarrow> assumption list \<Rightarrow> nat \<Rightarrow> nat \<Rightarrow> rng \<Rightarrow> (nat \<times> rng) option" where
  "trials its thr en i success g =
     (if js_lt (Fin (real i)) its
      then Option.bind (trial_score en (Fin 0) g) (\<lambda>(score, g').
             trials its thr en (Suc i) (if js_gt score thr then Suc success else success) g')
      else Some (success, g))"

definition eff_iterations :: "sim_request \<Rightarrow> jsnum" where
  "eff_iterations body =
     clamp (js_floor (nullish (iterations body) (Fin 20000))) (Fin 1000) (Fin 300000)"

definition eff_threshold :: "sim_request \<Rightarrow> jsnum" where
  "eff_threshold body = clamp (nullish (threshold body) (Fin 0)) (Fin (- 1000)) (Fin 1000)"

text \<open>
  The cut points are the decimal fractions. The route compares doubles; for a quotient
  \<open>success / iterations\<close> with at most 300000 iterations the outcome of either
  comparison is the same on the doubles as on the exact values, since the quotient either
  is \<open>33/100\<close> (or \<open>66/100\<close>) or lies further from it than any rounding reaches.
\<close>

definition label_of :: "jsnum \<Rightarrow> label" where
  "label_of p = (if js_lt p (Fin 0.33) then LOW else if js_lt p (Fin 0.66) then MEDIUM else HIGH)"

definition POST :: "random_source \<Rightarrow> sim_request \<Rightarrow> sim_response option" where
  "POST env body =
     (let its = eff_iterations body;
          thr = eff_threshold body;
          en = filter enabled (assumptions body);
          g = (case seed body of Some s \<Rightarrow> mulberry32 s | None \<Rightarrow> System env)
      in Option.bind (trials its thr en 0 0 g) (\<lambda>(success, g').
           let p = js_div (Fin (real success)) its
           in Some \<lparr>r_iterations = its, probabilitySuccess = p, r_label = label_of p,
                    summary_threshold = thr, summary_enabledCount = length en\<rparr>))"

subsection \<open>The weighted sum and the success count, as the specification words them\<close>

text \<open>
  A number clamped into \<open>[lo, hi]\<close>: a value inside the range is kept, a value outside
  goes to the nearer bound, and NaN goes to the lower bound.
\<close>

fun clamped :: "jsnum \<Rightarrow> real \<Rightarrow> real \<Rightarrow> jsnum" where
  "clamped (Fin x) lo hi = Fin (if x < lo then lo else if hi < x then hi else x)"
| "clamped PInf lo hi = Fin hi"
| "clamped NInf lo hi = Fin lo"
| "clamped NaN lo hi = Fin lo"

text \<open>
  One assumption's contribution for a normal draw \<open>z\<close>:
  \<open>(direction == negative ? -1 : 1) * weight * (mean + std * z)\<close>, where \<open>mean\<close>, \<open>std\<close>
  and \<open>weight\<close> are the fields clamped into \<open>[-10^6, 10^6]\<close>, \<open>[0, 10^6]\<close> and
  \<open>[0, 10^6]\<close>, and a field that is missing counts as 0, 0 and 1.
\<close>

definition contribution :: "assumption \<Rightarrow> jsnum \<Rightarrow> jsnum" where
  "contribution a z =
     js_mul (js_mul (if direction a = ''negative'' then Fin (- 1) else Fin 1)
                    (clamped (nullish (weight a) (Fin 1)) 0 1000000))
            (js_add (clamped (nullish (mean a) (Fin 0)) (- 1000000) 1000000)
                    (js_mul (clamped (nullish (std a) (Fin 0)) 0 1000000) z))"

text \<open>The sum of a list, added up from 0 in the order of the list.\<close>

definition js_sum :: "jsnum list \<Rightarrow> jsnum" where
  "js_sum xs = foldl js_add (Fin 0) xs"

text \<open>\<open>n\<close> successive calls of \<open>randn\<close> on one generator.\<close>

fun normal_draws :: "nat \<Rightarrow> rng \<Rightarrow> (jsnum list \<times> rng) option" where
  "normal_draws 0 g = Some ([], g)"
| "normal_draws (Suc n) g =
     Option.bind (randn g) (\<lambda>(z, g').
     Option.bind (normal_draws n g') (\<lambda>(zs, g'').
     Some (z # zs, g'')))"

text \<open>The scores of \<open>n\<close> successive trials, each starting where the last left the generator.\<close>

fun run_scores :: "nat \<Rightarrow> assumption list \<Rightarrow> rng \<Rightarrow> (jsnum list \<times> rng) option" where
  "run_scores 0 en g = Some ([], g)"
| "run_scores (Suc n) en g =
     Option.bind (trial_score en (Fin 0) g) (\<lambda>(s, g').
     Option.bind (run_scores n en g') (\<lambda>(ss, g'').
     Some (s # ss, g'')))"

text \<open>The normal draws of \<open>n\<close> successive trials, \<open>k\<close> draws to a trial.\<close>

fun trial_draws :: "nat \<Rightarrow> nat \<Rightarrow> rng \<Rightarrow> (jsnum list list \<times> rng) option" where
  "trial_draws 0 k g = Some ([], g)"
| "trial_draws (Suc n) k g =
     Option.bind (normal_draws k g) (\<lambda>(zs, g').
     Option.bind (trial_draws n k g') (\<lambda>(zss, g'').
     Some (zs # zss, g'')))"

text \<open>The generator a request selects.\<close>

definition request_rng :: "random_source \<Rightarrow> sim_request \<Rightarrow> rng" where
  "request_rng env body = (case seed body of Some s \<Rightarrow> mulberry32 s | None \<Rightarrow> System env)"

text \<open>
  The generator after \<open>n\<close> calls, and the value that its call number \<open>n\<close> gives, the
  calls counted from 0.
\<close>

fun after_calls :: "nat \<Rightarrow> rng \<Rightarrow> rng" where
  "after_calls 0 g = g"
| "after_calls (Suc n) g = after_calls n (snd (rng_call g))"

definition call_value :: "rng \<Rightarrow> nat \<Rightarrow> real" where
  "call_value g n = fst (rng_call (after_calls n g))"

text \<open>The Box-Muller value of two uniforms: \<open>sqrt(-2 ln u) * cos(2 pi v)\<close>.\<close>

definition normal_of :: "real \<Rightarrow> real \<Rightarrow> jsnum" where
  "normal_of u v =
     js_mul (js_sqrt (js_mul (Fin (- 2)) (js_log (Fin u))))
            (js_cos (js_mul (js_mul (Fin 2) (Fin pi)) (Fin v)))"

text \<open>
  The score of trial \<open>i\<close> of a run in which no call of the generator gives 0. Every
  normal draw is a fresh one: with \<open>m\<close> enabled assumptions, assumption \<open>j\<close> of trial
  \<open>i\<close> has the draw number \<open>i * m + j\<close> of the run, made of the generator's calls
  number \<open>2 * (i * m + j)\<close> and \<open>2 * (i * m + j) + 1\<close>, which no other draw uses.
\<close>

definition score_of :: "assumption list \<Rightarrow> rng \<Rightarrow> nat \<Rightarrow> jsnum" where
  "score_of en g i =
     js_sum (map (\<lambda>j. contribution (en ! j)
                         (normal_of (call_value g (2 * (i * length en + j)))
                                    (call_value g (2 * (i * length en + j) + 1))))
               [0..<length en])"

text \<open>
  A generator that is good for \<open>d\<close> more runs of the re-draw loop. The system source is
  good when every value lies strictly between 0 and 1. The seeded generator gives 0 exactly
  when \<open>t\<close> is a multiple of \<open>2^32\<close>; while \<open>t\<close> stays below \<open>2^83\<close> a call adds more
  than \<open>2^29\<close> and less than \<open>2^32\<close> to it, rounding included, so that no two calls in
  a row give 0 and a run of the loop adds less than \<open>2^33\<close>.
\<close>

fun fits :: "rng \<Rightarrow> nat \<Rightarrow> bool" where
  "fits (Mulberry32 t) d = (t + 2 ^ 33 * d < 2 ^ 83)"
| "fits (System src) d = (\<forall>n. 0 < src n \<and> src n < 1)"

text \<open>
  The same of a generator whose values are doubles: the seeded generator's are multiples
  of \<open>2^-32\<close>.
\<close>

fun fine :: "rng \<Rightarrow> nat \<Rightarrow> bool" where
  "fine (Mulberry32 t) d = (t + 2 ^ 33 * d < 2 ^ 83)"
| "fine (System src) d = unit_open src"

subsection \<open>Concrete requests\<close>

text \<open>A system source that answers one half at every call.\<close>

definition half_source :: random_source where
  "half_source = (\<lambda>n. 1 / 2)"

text \<open>A system source that answers zero at every call.\<close>

definition zero_source :: random_source where
  "zero_source = (\<lambda>n. 0)"

text \<open>
  The specification's scenario: 50000 iterations, threshold 0, and one enabled assumption
  with mean 1, no spread, weight 1 and positive direction.
\<close>

definition sure_assumption :: assumption where
  "sure_assumption =
     \<lparr>a_id = ''a1'', a_name = ''sure'', mean = Some (Fin 1), std = Some (Fin 0),
      weight = Some (Fin 1), direction = ''positive'', enabled = True\<rparr>"

definition sure_request :: sim_request where
  "sure_request =
     \<lparr>assumptions = [sure_assumption], iterations = Some (Fin 50000),
      threshold = Some (Fin 0), seed = None\<rparr>"

definition sure_response :: sim_response where
  "sure_response =
     \<lparr>r_iterations = Fin 50000, probabilitySuccess = Fin 1, r_label = HIGH,
      summary_threshold = Fin 0, summary_enabledCount = 1\<rparr>"

text \<open>The same request with a seed.\<close>

definition seeded_request :: sim_request where
  "seeded_request = sure_request\<lparr>seed := Some (Fin 42)\<rparr>"

text \<open>
  A request whose numeric fields are all anomalous, with one disabled assumption beside
  the enabled one.
\<close>

definition odd_assumption :: assumption where
  "odd_assumption =
     \<lparr>a_id = ''a2'', a_name = ''odd'', mean = Some NaN, std = Some NInf,
      weight = Some PInf, direction = ''negative'', enabled = True\<rparr>"

text \<open>An assumption with a mean above its range, a negative spread and a weight in range.\<close>

definition wild_assumption :: assumption where
  "wild_assumption =
     \<lparr>a_id = ''a3'', a_name = ''wild'', mean = Some (Fin 2000000), std = Some (Fin (- 5)),
      weight = Some (Fin 7), direction = ''positive'', enabled = True\<rparr>"

definition odd_request :: sim_request where
  "odd_request =
     \<lparr>assumptions = [odd_assumption, sure_assumption\<lparr>enabled := False\<rparr>],
      iterations = Some NaN, threshold = Some PInf, seed = None\<rparr>"

text \<open>
  A request with two enabled assumptions and one that is not: a gain of mean 1, spread 1
  and weight 4, a loss of mean 1 without spread, and an entry of mean 5 that is switched
  off. On the source that always answers one half every normal draw is
  \<open>- sqrt (2 ln 2)\<close>, and the score of every trial is
  \<open>4 * (1 - sqrt (2 ln 2)) - 1\<close>, about \<open>-1.7\<close>.
\<close>

definition gain :: assumption where
  "gain =
     \<lparr>a_id = ''g'', a_name = ''gain'', mean = Some (Fin 1), std = Some (Fin 1),
      weight = Some (Fin 4), direction = ''positive'', enabled = True\<rparr>"

definition loss :: assumption where
  "loss =
     \<lparr>a_id = ''l'', a_name = ''loss'', mean = Some (Fin 1), std = Some (Fin 0),
      weight = Some (Fin 1), direction = ''negative'', enabled = True\<rparr>"

definition idle :: assumption where
  "idle =
     \<lparr>a_id = ''i'', a_name = ''idle'', mean = Some (Fin 5), std = Some (Fin 0),
      weight = Some (Fin 1), direction = ''positive'', enabled = False\<rparr>"

definition mixed_request :: sim_request where
  "mixed_request =
     \<lparr>assumptions = [gain, idle, loss], iterations = Some (Fin 1000),
      threshold = Some (Fin 0), seed = None\<rparr>"

definition mixed_score :: real where
  "mixed_score = 4 * (1 - sqrt (2 * ln 2)) - 1"

definition mixed_response :: sim_response where
  "mixed_response =
     \<lparr>r_iterations = Fin 1000, probabilitySuccess = Fin 0, r_label = LOW,
      summary_threshold = Fin 0, summary_enabledCount = 2\<rparr>"

section \<open>The MCP function\<close>

subsection \<open>Variables and samples\<close>

text \<open>
  The \<open>variables\<close> object is the list of its entries in the order \<open>Object.entries\<close>
  gives them; an object has no two entries of one name. A field of a configuration is the
  number it holds; a missing one reads as \<open>undefined\<close>, which every use here turns into
  NaN.
\<close>

record config =
  base :: jsnum
  minv :: jsnum
  maxv :: jsnum

type_synonym variables = "(string \<times> config) list"

datatype js_error = TypeError

text \<open>
  One variable's sample. The two uniforms are taken as \<open>Math.random\<close> gives them: this
  function has no re-draw.
\<close>

definition sample_variable :: "config \<Rightarrow> random_source \<Rightarrow> jsnum \<times> random_source" where
  "sample_variable c src =
     (let (u1, src1) = Math_random src;
          (u2, src2) = Math_random src1;
          z = box_muller (Fin u1) (Fin u2);
          std = js_div (js_sub (maxv c) (minv c)) (Fin 4)
      in (js_max (minv c) (js_min (maxv c) (js_add (base c) (js_mul z std))), src2))"

fun draw_samples ::
  "variables \<Rightarrow> (string \<rightharpoonup> jsnum) \<Rightarrow> random_source \<Rightarrow> (string \<rightharpoonup> jsnum) \<times> random_source" where
  "draw_samples [] samples src = (samples, src)"
| "draw_samples ((name, c) # vs) samples src =
     (let (x, src') = sample_variable c src in draw_samples vs (samples(name \<mapsto> x)) src')"

text \<open>\<open>samples.salary\<close> in arithmetic: a property that is not there is NaN.\<close>

definition property :: "(string \<rightharpoonup> jsnum) \<Rightarrow> string \<Rightarrow> jsnum" where
  "property samples k = (case samples k of None \<Rightarrow> NaN | Some x \<Rightarrow> x)"

definition hiring_outcome :: "(string \<rightharpoonup> jsnum) \<Rightarrow> jsnum" where
  "hiring_outcome samples =
     (let cost = js_mul (property samples ''salary'') (property samples ''benefits_multiplier'');
          projects = js_mul (Fin 20) (property samples ''utilization_rate'');
          effective = js_add (js_mul projects (Fin 0.75))
                        (js_mul (js_mul projects (Fin 0.25)) (property samples ''ramp_up_discount''));
          revenue = js_mul (js_mul effective (property samples ''project_win_rate''))
                      (property samples ''avg_project_value'')
      in js_sub revenue cost)"

text \<open>The trial loop: the outcomes in the order they are pushed.\<close>

fun simulate :: "nat \<Rightarrow> variables \<Rightarrow> random_source \<Rightarrow> jsnum list \<times> random_source" where
  "simulate 0 vs src = ([], src)"
| "simulate (Suc n) vs src =
     (let (samples, src1) = draw_samples vs Map.empty src;
          (outcomes, src2) = simulate n vs src1
      in (hiring_outcome samples # outcomes, src2))"

subsection \<open>Array.prototype.sort\<close>

text \<open>
  ECMAScript asks for a stable sort: \<open>x\<close> goes before \<open>y\<close> when the comparator's answer
  for them is negative, and entries that compare as equal keep their order; an answer of
  NaN counts as 0. For a consistent comparator that fixes the result, and the insertion
  sort below computes it. When the comparator is not consistent, which NaN among the keys
  causes, the standard leaves the order to the engine, and the order below is one of the
  possible ones.
\<close>

fun insert_sorted :: "('a \<Rightarrow> 'a \<Rightarrow> jsnum) \<Rightarrow> 'a \<Rightarrow> 'a list \<Rightarrow> 'a list" where
  "insert_sorted cmp x [] = [x]"
| "insert_sorted cmp x (y # ys) =
     (if js_lt (cmp y x) (Fin 0) then y # insert_sorted cmp x ys else x # y # ys)"

definition array_sort :: "('a \<Rightarrow> 'a \<Rightarrow> jsnum) \<Rightarrow> 'a list \<Rightarrow> 'a list" where
  "array_sort cmp xs = foldr (insert_sorted cmp) xs []"

subsection \<open>runSimulation\<close>

record sim_result =
  mean_of :: jsnum
  median :: jsnum
  p10 :: jsnum
  p90 :: jsnum
  prob_positive :: jsnum

text \<open>\<open>outcomes[i]\<close>: an index outside the array gives \<open>undefined\<close>, NaN as a number.\<close>

definition element_at :: "jsnum list \<Rightarrow> nat \<Rightarrow> jsnum" where
  "element_at xs i = (if i < length xs then xs ! i else NaN)"

text \<open>
  \<open>reduce\<close> without an initial value throws a TypeError on the empty array, which is the
  case \<open>n = 0\<close>. The indices are \<open>Math.floor(n / 2)\<close>, \<open>Math.floor(n * 0.1)\<close> and
  \<open>Math.floor(n * 0.9)\<close>; the doubles nearest to \<open>0.1\<close> and \<open>0.9\<close> lie above
  them by less than \<open>10^-16\<close>, and the floors of the products are those of the exact
  products. The program calls the function with \<open>n = 10000\<close> and \<open>n = 5000\<close> only.
\<close>

definition runSimulation ::
  "variables \<Rightarrow> nat \<Rightarrow> random_source \<Rightarrow> js_error + (sim_result \<times> random_source)" where
  "runSimulation vs n src =
     (let (pushed, src') = simulate n vs src;
          outcomes = array_sort (\<lambda>a b. js_sub a b) pushed
      in case outcomes of
           [] \<Rightarrow> Inl TypeError
         | x # xs \<Rightarrow>
             Inr (\<lparr>mean_of = js_div (foldl js_add x xs) (Fin (real n)),
                   median = element_at outcomes (nat \<lfloor>real n / 2\<rfloor>),
                   p10 = element_at outcomes (nat \<lfloor>real n * 0.1\<rfloor>),
                   p90 = element_at outcomes (nat \<lfloor>real n * 0.9\<rfloor>),
                   prob_positive =
                     js_div (Fin (real (length (filter (\<lambda>x. js_gt x (Fin 0)) outcomes))))
                       (Fin (real n))\<rparr>, src'))"

subsection \<open>sensitivity\<close>

record row =
  variable :: string
  row_base :: jsnum
  row_min :: jsnum
  row_max :: jsnum
  outcome_at_low :: jsnum
  outcome_at_high :: jsnum
  impact_percent :: jsnum

text \<open>
  \<open>{ ...variables, [name]: { ...config, base: b } }\<close>: the entry of that name is replaced
  where it stands.
\<close>

definition with_base :: "variables \<Rightarrow> string \<Rightarrow> config \<Rightarrow> jsnum \<Rightarrow> variables" where
  "with_base vs name c b = map (\<lambda>(k, c'). if k = name then (k, c\<lparr>base := b\<rparr>) else (k, c')) vs"

definition impact :: "sim_result \<Rightarrow> sim_result \<Rightarrow> sim_result \<Rightarrow> jsnum" where
  "impact resLow resHigh baseResults =
     js_abs (js_mul (js_div (js_sub (mean_of resHigh) (mean_of resLow)) (mean_of baseResults))
               (Fin 100))"

text \<open>The callback of \<open>map\<close>, for one entry.\<close>

definition sensitivity_row ::
  "variables \<Rightarrow> sim_result \<Rightarrow> string \<times> config \<Rightarrow> random_source
     \<Rightarrow> js_error + (row \<times> random_source)" where
  "sensitivity_row vs baseResults e src =
     (case e of (name, c) \<Rightarrow>
      case runSimulation (with_base vs name c (minv c)) 5000 src of
        Inl err \<Rightarrow> Inl err
      | Inr (resLow, src1) \<Rightarrow>
      case runSimulation (with_base vs name c (maxv c)) 5000 src1 of
        Inl err \<Rightarrow> Inl err
      | Inr (resHigh, src2) \<Rightarrow>
          Inr (\<lparr>variable = name, row_base = base c, row_min = minv c, row_max = maxv c,
                outcome_at_low = mean_of resLow, outcome_at_high = mean_of resHigh,
                impact_percent = impact resLow resHigh baseResults\<rparr>, src2))"

fun map_rows ::
  "variables \<Rightarrow> sim_result \<Rightarrow> variables \<Rightarrow> random_source
     \<Rightarrow> js_error + (row list \<times> random_source)" where
  "map_rows vs baseResults [] src = Inr ([], src)"
| "map_rows vs baseResults (e # es) src =
     (case sensitivity_row vs baseResults e src of
        Inl err \<Rightarrow> Inl err
      | Inr (r, src1) \<Rightarrow>
      case map_rows vs baseResults es src1 of
        Inl err \<Rightarrow> Inl err
      | Inr (rs, src2) \<Rightarrow> Inr (r # rs, src2))"

definition sensitivity ::
  "variables \<Rightarrow> sim_result \<Rightarrow> random_source \<Rightarrow> js_error + (row list \<times> random_source)" where
  "sensitivity vs baseResults src =
     (case map_rows vs baseResults vs src of
        Inl err \<Rightarrow> Inl err
      | Inr (rows, src') \<Rightarrow>
          Inr (array_sort (\<lambda>a b. js_sub (impact_percent b) (impact_percent a)) rows, src'))"

subsection \<open>handler\<close>

text \<open>
  A request carries its HTTP method and its parsed body; a body, its \<open>method\<close> and its
  \<open>params\<close>; the parameters, the tool's name and its arguments. \<open>None\<close> is \<open>undefined\<close>
  or \<open>null\<close>, which a destructuring or \<open>Object.entries\<close> answers with a TypeError.
\<close>

record tool_args =
  decision_name :: string
  tool_variables :: "variables option"

record call_params =
  tool_name :: string
  tool_arguments :: "tool_args option"

record rpc_body =
  rpc_method :: string
  rpc_params :: "call_params option"

record http_request =
  http_method :: string
  http_body :: "rpc_body option"

text \<open>
  The values the summary text is built from: the formatting (\<open>toLocaleString\<close>,
  \<open>toFixed\<close>) makes a string of each and throws for none.
\<close>

record summary =
  s_decision :: string
  s_pessimistic :: jsnum
  s_expected :: jsnum
  s_optimistic :: jsnum
  s_probability :: jsnum
  s_most_sensitive :: string
  s_impact :: jsnum

datatype payload =
    NoBody
  | Health
  | Tools
  | Content summary bool
  | Error string
  | Caught js_error bool

record response =
  status :: nat
  payload :: payload

fun js_round :: "jsnum \<Rightarrow> jsnum" where
  "js_round (Fin a) = Fin (of_int \<lfloor>a + 1 / 2\<rfloor>)"
| "js_round x = x"

text \<open>
  The first two statements of the tool's branch: \<open>results\<close> of the base run of 10000
  trials, and \<open>sens\<close> computed from it on the source as the base run left it.
\<close>

definition analysis :: "variables \<Rightarrow> random_source \<Rightarrow> js_error + (sim_result \<times> row list)" where
  "analysis vs src =
     (case runSimulation vs 10000 src of
        Inl err \<Rightarrow> Inl err
      | Inr (results, src1) \<Rightarrow>
      case sensitivity vs results src1 of
        Inl err \<Rightarrow> Inl err
      | Inr (sens, src2) \<Rightarrow> Inr (results, sens))"

text \<open>The branch of the tool, up to the response: an error here is thrown inside \<open>try\<close>.\<close>

definition analyze_decision :: "tool_args \<Rightarrow> random_source \<Rightarrow> js_error + response" where
  "analyze_decision args src =
     (case tool_variables args of
        None \<Rightarrow> Inl TypeError
      | Some vs \<Rightarrow>
      case analysis vs src of
        Inl err \<Rightarrow> Inl err
      | Inr (results, sens) \<Rightarrow>
      case sens of
        [] \<Rightarrow> Inl TypeError
      | r0 # rest \<Rightarrow>
          Inr \<lparr>status = 200,
               payload = Content
                 \<lparr>s_decision = decision_name args,
                  s_pessimistic = js_round (p10 results),
                  s_expected = js_round (median results),
                  s_optimistic = js_round (p90 results),
                  s_probability = js_mul (prob_positive results) (Fin 100),
                  s_most_sensitive = variable r0,
                  s_impact = impact_percent r0\<rparr> False\<rparr>)"

definition try_block :: "rpc_body \<Rightarrow> random_source \<Rightarrow> js_error + response" where
  "try_block b src =
     (if rpc_method b = ''tools/list'' then Inr \<lparr>status = 200, payload = Tools\<rparr>
      else if rpc_method b = ''tools/call'' then
        (case rpc_params b of
           None \<Rightarrow> Inl TypeError
         | Some p \<Rightarrow>
             if tool_name p = ''analyze_decision'' then
               (case tool_arguments p of
                  None \<Rightarrow> Inl TypeError
                | Some args \<Rightarrow> analyze_decision args src)
             else Inr \<lparr>status = 404, payload = Error ''Unknown method''\<rparr>)
      else Inr \<lparr>status = 404, payload = Error ''Unknown method''\<rparr>)"

text \<open>\<open>Inl\<close> is an exception that leaves the handler; the \<open>catch\<close> answers with 500.\<close>

definition handler :: "http_request \<Rightarrow> random_source \<Rightarrow> js_error + response" where
  "handler req src =
     (if http_method req = ''OPTIONS'' then Inr \<lparr>status = 200, payload = NoBody\<rparr>
      else if http_method req = ''GET'' then Inr \<lparr>status = 200, payload = Health\<rparr>
      else if http_method req = ''POST'' then
        (case http_body req of
           None \<Rightarrow> Inl TypeError
         | Some b \<Rightarrow>
             (case try_block b src of
                Inl err \<Rightarrow> Inr \<lparr>status = 500, payload = Caught err True\<rparr>
              | Inr resp \<Rightarrow> Inr resp))
      else Inr \<lparr>status = 405, payload = Error ''Method not allowed''\<rparr>)"

subsection \<open>Auxiliary notions\<close>

text \<open>The source after \<open>k\<close> calls of \<open>Math.random\<close>.\<close>

definition advance :: "nat \<Rightarrow> random_source \<Rightarrow> random_source" where
  "advance k src = (\<lambda>n. src (n + k))"

text \<open>
  The numbers other than NaN in their order, as pairs compared lexicographically: the
  order in which \<open>a - b < 0\<close> sorts them.
\<close>

fun rank :: "jsnum \<Rightarrow> int \<times> real" where
  "rank (Fin a) = (0, a)"
| "rank PInf = (1, 0)"
| "rank NInf = (- 1, 0)"
| "rank NaN = (2, 0)"

text \<open>What \<open>runSimulation\<close> returns for outcomes that are already sorted.\<close>

definition result_of :: "jsnum list \<Rightarrow> sim_result" where
  "result_of os =
     \<lparr>mean_of = js_div (js_sum os) (Fin (real (length os))),
      median = os ! (length os div 2),
      p10 = os ! (length os div 10),
      p90 = os ! (9 * length os div 10),
      prob_positive = Fin (real (length (filter (\<lambda>x. js_gt x (Fin 0)) os)) / real (length os))\<rparr>"

text \<open>
  A number that arithmetic can give: a finite one lies below the bound of overflow.
\<close>

fun in_range :: "jsnum \<Rightarrow> bool" where
  "in_range (Fin a) = (\<bar>a\<bar> < overflow)"
| "in_range _ = True"

text \<open>A number that is neither 0 nor NaN.\<close>

fun nonzero :: "jsnum \<Rightarrow> bool" where
  "nonzero (Fin a) = (a \<noteq> 0)"
| "nonzero NaN = False"
| "nonzero _ = True"

text \<open>A row's impact, read off the row and the base result.\<close>

definition row_ok :: "sim_result \<Rightarrow> row \<Rightarrow> bool" where
  "row_ok b r \<longleftrightarrow>
     impact_percent r =
       js_abs (js_mul (js_div (js_sub (outcome_at_high r) (outcome_at_low r)) (mean_of b))
                 (Fin 100))"

text \<open>
  A variable without spread: equal finite bounds and a numeric base. With every variable
  so, each sample is the variable's bound, \<open>at_min\<close> is the \<open>samples\<close> object, and
  every trial of every run has the one outcome that the formula gives for it.
\<close>

fun is_fin :: "jsnum \<Rightarrow> bool" where
  "is_fin (Fin a) = True"
| "is_fin _ = False"

definition pinned :: "config \<Rightarrow> bool" where
  "pinned c \<longleftrightarrow> is_fin (minv c) \<and> maxv c = minv c \<and> is_fin (base c)"

fun at_min :: "variables \<Rightarrow> (string \<rightharpoonup> jsnum) \<Rightarrow> (string \<rightharpoonup> jsnum)" where
  "at_min [] samples = samples"
| "at_min ((name, c) # vs) samples = at_min vs (samples(name \<mapsto> minv c))"

text \<open>The six inputs the outcome formula reads.\<close>

definition model_inputs :: "string list" where
  "model_inputs =
     [''salary'', ''benefits_multiplier'', ''utilization_rate'', ''ramp_up_discount'',
      ''project_win_rate'', ''avg_project_value'']"

definition has_inputs :: "variables \<Rightarrow> bool" where
  "has_inputs vs \<longleftrightarrow> set model_inputs \<subseteq> fst ` set vs"

subsection \<open>Concrete variable sets\<close>

definition flat :: "real \<Rightarrow> config" where
  "flat x = \<lparr>base = Fin x, minv = Fin x, maxv = Fin x\<rparr>"

text \<open>
  All six inputs without spread: the outcome of every trial is
  \<open>20 * 1 * 1 * 10 - 100 * 1 = 100\<close>.
\<close>

definition steady_vars :: variables where
  "steady_vars =
     [(''salary'', flat 100), (''benefits_multiplier'', flat 1), (''utilization_rate'', flat 1),
      (''ramp_up_discount'', flat 1), (''project_win_rate'', flat 1),
      (''avg_project_value'', flat 10)]"

text \<open>All six inputs fixed at 0: the outcome of every trial is 0.\<close>

definition idle_vars :: variables where
  "idle_vars =
     [(''salary'', flat 0), (''benefits_multiplier'', flat 0), (''utilization_rate'', flat 0),
      (''ramp_up_discount'', flat 0), (''project_win_rate'', flat 0),
      (''avg_project_value'', flat 0)]"

text \<open>Two variables of a decision that is not the hiring one.\<close>

definition other_vars :: variables where
  "other_vars = [(''price'', flat 5), (''volume'', flat 7)]"

definition nan_result :: sim_result where
  "nan_result = \<lparr>mean_of = NaN, median = NaN, p10 = NaN, p90 = NaN, prob_positive = Fin 0\<rparr>"

definition flat_result :: "real \<Rightarrow> sim_result" where
  "flat_result r =
     \<lparr>mean_of = Fin r, median = Fin r, p10 = Fin r, p90 = Fin r,
      prob_positive = Fin (if 0 < r then 1 else 0)\<rparr>"

text \<open>The row of a variable whose two runs both have the mean \<open>r\<close>.\<close>

definition flat_row :: "sim_result \<Rightarrow> real \<Rightarrow> string \<times> config \<Rightarrow> row" where
  "flat_row b r e =
     \<lparr>variable = fst e, row_base = base (snd e), row_min = minv (snd e),
      row_max = maxv (snd e), outcome_at_low = Fin r, outcome_at_high = Fin r,
      impact_percent = js_abs (js_mul (js_div (Fin 0) (mean_of b)) (Fin 100))\<rparr>"

text \<open>
  The row of a variable whose two runs both have the mean \<open>m\<close>, finite or not, and the
  mean of a run of \<open>n\<close> trials that all have the outcome \<open>x\<close>.
\<close>

definition level_row :: "sim_result \<Rightarrow> jsnum \<Rightarrow> string \<times> config \<Rightarrow> row" where
  "level_row b m e =
     \<lparr>variable = fst e, row_base = base (snd e), row_min = minv (snd e),
      row_max = maxv (snd e), outcome_at_low = m, outcome_at_high = m,
      impact_percent = js_abs (js_mul (js_div (js_sub m m) (mean_of b)) (Fin 100))\<rparr>"

definition level_mean :: "nat \<Rightarrow> jsnum \<Rightarrow> jsnum" where
  "level_mean n x = js_div (js_sum (replicate n x)) (Fin (real n))"

text \<open>
  All six inputs without spread, the salary and the benefits multiplier both at
  \<open>10^200\<close>: the cost \<open>10^200 * 10^200\<close> overflows to \<open>Infinity\<close>, and the outcome of
  every trial is \<open>20 - Infinity = -Infinity\<close>.
\<close>

definition big_vars :: variables where
  "big_vars =
     [(''salary'', flat (10 ^ 200)), (''benefits_multiplier'', flat (10 ^ 200)),
      (''utilization_rate'', flat 1), (''ramp_up_discount'', flat 1),
      (''project_win_rate'', flat 1), (''avg_project_value'', flat 1)]"

definition lost_result :: sim_result where
  "lost_result =
     \<lparr>mean_of = NInf, median = NInf, p10 = NInf, p90 = NInf, prob_positive = Fin 0\<rparr>"

text \<open>A \<open>tools/call\<close> request for \<open>analyze_decision\<close>.\<close>

definition call_request :: "string \<Rightarrow> variables \<Rightarrow> http_request" where
  "call_request d vs =
     \<lparr>http_method = ''POST'',
      http_body = Some
        \<lparr>rpc_method = ''tools/call'',
         rpc_params = Some
           \<lparr>tool_name = ''analyze_decision'',
            tool_arguments = Some \<lparr>decision_name = d, tool_variables = Some vs\<rparr>\<rparr>\<rparr>\<rparr>"

text \<open>Rows in descending order of \<open>impact_percent\<close>: each row \<open>>=\<close> every later one.\<close>

definition descending :: "row list \<Rightarrow> bool" where
  "descending rows = sorted_wrt (\<lambda>r r'. js_ge (impact_percent r) (impact_percent r')) rows"

text \<open>The rows that have the impact \<open>v\<close>, in the order of the list.\<close>

definition with_impact :: "jsnum \<Rightarrow> row list \<Rightarrow> row list" where
  "with_impact v rows = filter (\<lambda>r. impact_percent r = v) rows"

text \<open>The row of a variable whose two runs have no mean.\<close>

definition nan_row :: "string \<times> config \<Rightarrow> row" where
  "nan_row e =
     \<lparr>variable = fst e, row_base = base (snd e), row_min = minv (snd e),
      row_max = maxv (snd e), outcome_at_low = NaN, outcome_at_high = NaN,
      impact_percent = NaN\<rparr>"

text \<open>
  Five inputs without spread and one, the last, with the range \<open>[0, 2]\<close> around 1; and a
  source whose even calls, the \<open>u1\<close> of every sample, give \<open>1/16\<close> during the 60000
  calls that follow the base run and \<open>1/2\<close> otherwise, and whose odd calls give \<open>1/2\<close>.
\<close>

definition noisy_vars :: variables where
  "noisy_vars =
     [(''salary'', flat 1), (''benefits_multiplier'', flat 1), (''utilization_rate'', flat 1),
      (''ramp_up_discount'', flat 1), (''project_win_rate'', flat 1),
      (''avg_project_value'', \<lparr>base = Fin 1, minv = Fin 0, maxv = Fin 2\<rparr>)]"

definition noisy_source :: random_source where
  "noisy_source =
     (\<lambda>p. if odd p then 1 / 2 else if 120000 \<le> p \<and> p < 180000 then 1 / 16 else 1 / 2)"

text \<open>
  The outcome of every trial of \<open>noisy_vars\<close> while the \<open>u1\<close> draws give \<open>1/2\<close>:
  \<open>20 * (1 - sqrt (2 ln 2) / 2) - 1\<close>, about 7.2.
\<close>

definition noisy_outcome :: real where
  "noisy_outcome = 20 * max 0 (min 2 (1 - sqrt (- 2 * ln (1 / 2)) / 2)) - 1"

text \<open>The row of \<open>salary\<close> in the analysis of \<open>noisy_vars\<close> on \<open>noisy_source\<close>.\<close>

definition noisy_salary_row :: row where
  "noisy_salary_row =
     \<lparr>variable = ''salary'', row_base = Fin 1, row_min = Fin 1, row_max = Fin 1,
      outcome_at_low = Fin (- 1), outcome_at_high = Fin noisy_outcome,
      impact_percent =
        impact (flat_result (- 1)) (flat_result noisy_outcome) (flat_result noisy_outcome)\<rparr>"

text \<open>A source whose first call gives 0 and every later call \<open>1/2\<close>.\<close>

definition first_zero_source :: random_source where
  "first_zero_source = (\<lambda>n. if n = 0 then 0 else 1 / 2)"

section \<open>Facts about the HTTP route\<close>

subsection \<open>Arithmetic within the range of the doubles\<close>

lemma overflow_pos: "0 < overflow"
  by (simp add: overflow_def)

lemma overflow_large: "2 ^ 1000 < overflow"
  by (simp add: overflow_def)

lemma least_positive_pos: "0 < least_positive"
  by (simp add: least_positive_def)

lemma js_result_Fin: "\<bar>x\<bar> < overflow \<Longrightarrow> js_result x = Fin x"
  by (auto simp: js_result_def)

lemma js_result_0: "js_result 0 = Fin 0"
  using overflow_pos by (simp add: js_result_def)

lemma js_result_small: "\<bar>x\<bar> \<le> 2 ^ 1000 \<Longrightarrow> js_result x = Fin x"
  using overflow_large by (intro js_result_Fin) linarith

lemma js_mul_Fin: "\<bar>a * b\<bar> \<le> 2 ^ 1000 \<Longrightarrow> js_mul (Fin a) (Fin b) = Fin (a * b)"
  by (simp add: js_result_small)

lemma js_result_bounded: "- 10000 \<le> x \<Longrightarrow> x \<le> 10000 \<Longrightarrow> js_result x = Fin x"
  by (rule js_result_small) (simp add: abs_le_iff)

lemma js_result_share: "k \<le> n \<Longrightarrow> js_result (real k / real n) = Fin (real k / real n)"
proof (rule js_result_bounded)
  assume "k \<le> n"
  then have "real k / real n \<le> 1" by (cases "n = 0") simp_all
  then show "real k / real n \<le> 10000" by simp
  have "0 \<le> real k / real n" by simp
  then show "- 10000 \<le> real k / real n" by linarith
qed

lemma js_result_pi: "js_result (2 * pi) = Fin (2 * pi)" "js_result pi = Fin pi"
  using pi_gt_zero pi_less_4 by (intro js_result_bounded; argo)+

subsection \<open>clamp\<close>

lemma clamp_range:
  assumes "lo \<le> hi"
  shows "\<exists>r. clamp n (Fin lo) (Fin hi) = Fin r \<and> lo \<le> r \<and> r \<le> hi"
  using assms by (cases n) (auto simp: clamp_def js_max_def js_min_def)

lemma clamp_NaN: "clamp NaN lo hi = lo"
  by (simp add: clamp_def)

lemma clamp_Fin:
  "lo \<le> hi \<Longrightarrow> clamp (Fin x) (Fin lo) (Fin hi) = Fin (max lo (min hi x))"
  by (auto simp: clamp_def js_max_def js_min_def)

lemma clamp_clamped: "lo \<le> hi \<Longrightarrow> clamp n (Fin lo) (Fin hi) = clamped n lo hi"
  by (cases n) (auto simp: clamp_def js_max_def js_min_def)

lemma eff_mean_clamped: "eff_mean a = clamped (nullish (mean a) (Fin 0)) (- 1000000) 1000000"
  by (simp add: eff_mean_def clamp_clamped)

lemma eff_std_clamped: "eff_std a = clamped (nullish (std a) (Fin 0)) 0 1000000"
  by (simp add: eff_std_def clamp_clamped)

lemma eff_weight_clamped: "eff_weight a = clamped (nullish (weight a) (Fin 1)) 0 1000000"
  by (simp add: eff_weight_def clamp_clamped)

lemma eff_threshold_clamped:
  "eff_threshold body = clamped (nullish (threshold body) (Fin 0)) (- 1000) 1000"
  by (simp add: eff_threshold_def clamp_clamped)

lemma eff_iterations_clamped:
  "eff_iterations body = clamped (js_floor (nullish (iterations body) (Fin 20000))) 1000 300000"
  by (simp add: eff_iterations_def clamp_clamped)

lemma contribution_code:
  "contribution a z =
     js_mul (js_mul (sign a) (eff_weight a)) (js_add (eff_mean a) (js_mul (eff_std a) z))"
  by (simp add: contribution_def sign_def eff_mean_clamped eff_std_clamped eff_weight_clamped)

lemma eff_iterations_nat:
  "\<exists>k::nat. eff_iterations body = Fin (real k) \<and> 1000 \<le> k \<and> k \<le> 300000"
proof (cases "js_floor (nullish (iterations body) (Fin 20000))")
  case (Fin x)
  then obtain z :: int where z: "x = of_int z"
    by (cases "nullish (iterations body) (Fin 20000)") auto
  let ?k = "nat (max 1000 (min 300000 z))"
  have "eff_iterations body = Fin (max 1000 (min 300000 (of_int z)))"
    by (simp add: eff_iterations_def Fin z clamp_Fin)
  also have "max 1000 (min 300000 (of_int z :: real)) = real ?k"
    by (simp add: max_def min_def)
  finally show ?thesis
    by (intro exI [of _ ?k]) auto
next
  case PInf
  then show ?thesis
    by (intro exI [of _ 300000]) (simp add: eff_iterations_def clamp_def js_max_def js_min_def)
next
  case NInf
  then show ?thesis
    by (intro exI [of _ 1000]) (simp add: eff_iterations_def clamp_def js_max_def js_min_def)
next
  case NaN
  then show ?thesis
    by (intro exI [of _ 1000]) (simp add: eff_iterations_def clamp_def)
qed

subsection \<open>The loops as sums and counts\<close>

lemma trial_score_acc:
  "trial_score en acc g =
     Option.bind (normal_draws (length en) g)
       (\<lambda>(zs, g'). Some (foldl js_add acc (map2 contribution en zs), g'))"
proof (induction en arbitrary: acc g)
  case Nil
  show ?case by simp
next
  case (Cons a en)
  show ?case
  proof (cases "randn g")
    case None
    then show ?thesis by simp
  next
    case (Some p)
    obtain z g1 where p: "p = (z, g1)" by (cases p)
    show ?thesis
      by (cases "normal_draws (length en) g1")
         (auto simp: Some p Cons.IH contribution_code Let_def)
  qed
qed

lemma trials_unfold:
  "trials its thr en i success g =
     (if js_lt (Fin (real i)) its
      then Option.bind (trial_score en (Fin 0) g) (\<lambda>(score, g').
             trials its thr en (Suc i) (if js_gt score thr then Suc success else success) g')
      else Some (success, g))"
  by (rule trials.simps)

lemma trials_run_scores:
  "i \<le> N \<Longrightarrow>
   trials (Fin (real N)) thr en i s g =
     map_option (\<lambda>(ss, g'). (s + length (filter (\<lambda>x. js_gt x thr) ss), g'))
       (run_scores (N - i) en g)"
proof (induction "N - i" arbitrary: i s g)
  case 0
  then have "i = N" by simp
  then show ?case by (subst trials_unfold) simp
next
  case (Suc d)
  then have lt: "i < N" and d: "d = N - Suc i" and le: "Suc i \<le> N" by auto
  have NS: "N - i = Suc (N - Suc i)" using lt by simp
  show ?case
  proof (cases "trial_score en (Fin 0) g")
    case None
    then show ?thesis using lt by (subst trials_unfold) (simp add: NS)
  next
    case (Some p)
    obtain sc g1 where p: "p = (sc, g1)" by (cases p)
    show ?thesis
      using lt
      by (subst trials_unfold)
         (cases "run_scores (N - Suc i) en g1";
          auto simp: NS Some p Suc.hyps(1) [OF d le] split: prod.splits)
  qed
qed


subsection \<open>The seeded generator\<close>

lemma xor_drop_bit_zero:
  fixes w :: "32 word"
  assumes "0 < n" "w XOR drop_bit n w = 0"
  shows "w = 0"
proof -
  have "w = (w XOR drop_bit n w) XOR drop_bit n w"
    by (simp add: xor.assoc)
  with assms(2) have eq: "drop_bit n w = w" by simp
  have "unat (drop_bit n w) = unat w div 2 ^ n"
    by (rule trans [OF unat_drop_bit_eq drop_bit_eq_div])
  with eq have d: "unat w div 2 ^ n = unat w" by simp
  have "unat w = 0"
  proof (rule ccontr)
    assume "unat w \<noteq> 0"
    moreover have "(1::nat) < 2 ^ n" using assms(1)
      by (meson one_less_numeral_iff one_less_power semiring_norm(76))
    ultimately have "unat w div 2 ^ n < unat w" by (intro div_less_dividend) auto
    with d show False by simp
  qed
  then show ?thesis by (simp add: unat_eq_0)
qed

lemma xor_eq_zero_iff: "(a::32 word) XOR b = 0 \<longleftrightarrow> a = b"
proof
  assume "a XOR b = 0"
  moreover have "a = (a XOR b) XOR b" by (simp add: xor.assoc)
  ultimately show "a = b" by simp
qed simp

lemma odd_mult_zero:
  fixes a b :: "32 word"
  assumes "odd b" "a * b = 0"
  shows "a = 0"
proof -
  have "odd (unat b)" using assms(1)
    by (metis even_of_nat mult.right_neutral unsigned_1 word_arith_nat_mult)
  then have "coprime ((2::nat) ^ 32) (unat b)"
    by (meson coprime_left_2_iff_odd coprime_power_left_iff)
  moreover have "unat (a * b) = 0" using assms(2) by simp
  then have "2 ^ 32 dvd unat a * unat b"
    by (simp add: unat_word_ariths mod_eq_0_iff_dvd)
  ultimately have "2 ^ 32 dvd unat a"
    by (simp add: coprime_dvd_mult_left_iff)
  moreover have "unat a < 2 ^ 32" using unsigned_less [of a] by simp
  ultimately have "unat a = 0"
    using dvd_imp_le by fastforce
  then show ?thesis by (simp add: unat_eq_0)
qed

lemma mulberry32_out_zero: "mulberry32_out t = 0 \<longleftrightarrow> t = 0"
proof
  assume z: "mulberry32_out t = 0"
  define x1 where "x1 = (t XOR drop_bit 15 t) * (1 OR t)"
  define x2 where "x2 = x1 XOR (x1 + (x1 XOR drop_bit 7 x1) * (61 OR x1))"
  from z have "x2 XOR drop_bit 14 x2 = 0"
    by (simp add: mulberry32_out_def x1_def x2_def Let_def)
  then have "x2 = 0" by (rule xor_drop_bit_zero [rotated]) simp
  then have "x1 + (x1 XOR drop_bit 7 x1) * (61 OR x1) = x1"
    unfolding x2_def by (simp add: xor_eq_zero_iff)
  then have "(x1 XOR drop_bit 7 x1) * (61 OR x1) = 0" by simp
  moreover have "odd (61 OR x1)" by (simp add: even_or_iff)
  ultimately have "x1 XOR drop_bit 7 x1 = 0" using odd_mult_zero by blast
  then have "x1 = 0" by (rule xor_drop_bit_zero [rotated]) simp
  moreover have "odd (1 OR t)" by (simp add: even_or_iff)
  ultimately have "t XOR drop_bit 15 t = 0" unfolding x1_def using odd_mult_zero by blast
  then show "t = 0" by (rule xor_drop_bit_zero [rotated]) simp
next
  assume "t = 0"
  then show "mulberry32_out t = 0" by (simp add: mulberry32_out_def)
qed


lemma round53_near:
  assumes "n < 2 ^ 83"
  shows "round53 n \<le> n + 2 ^ 29" "n \<le> round53 n + 2 ^ 29"
proof -
  have "round53 n \<le> n + 2 ^ 29 \<and> n \<le> round53 n + 2 ^ 29"
  proof (cases "n < 2 ^ 53")
    case True
    then show ?thesis by (simp add: round53_def)
  next
    case False
    define e where "e = floorlog 2 n - 53"
    define h :: nat where "h = 2 ^ (e - 1)"
    define q where "q = n div 2 ^ e"
    define r where "r = n mod 2 ^ e"
    have "floorlog 2 n \<le> 83" using assms by (intro floorlog_leI) simp_all
    then have e30: "e \<le> 30" unfolding e_def by simp
    have "(2::nat) ^ 53 \<le> n" using False by simp
    then have "Suc 53 \<le> floorlog 2 n" by (intro floorlog_ge_SucI) simp_all
    then have e1: "1 \<le> e" unfolding e_def by simp
    have "e - 1 \<le> 29" using e30 by simp
    then have "(2::nat) ^ (e - 1) \<le> 2 ^ 29" by (intro power_increasing) simp_all
    then have h29: "h \<le> 2 ^ 29" unfolding h_def .
    have "(2::nat) ^ e = 2 ^ Suc (e - 1)" using e1 by simp
    then have p: "(2::nat) ^ e = 2 * h" unfolding h_def by simp
    have n: "n = q * 2 ^ e + r" unfolding q_def r_def by (rule div_mult_mod_eq [symmetric])
    have rlt: "r < 2 * h" unfolding r_def p [symmetric] by simp
    have rd: "round53 n = (if r < h \<or> (r = h \<and> even q) then q * 2 ^ e else (q + 1) * 2 ^ e)"
      using False by (simp add: round53_def Let_def e_def h_def q_def r_def)
    show ?thesis
    proof (cases "r < h \<or> (r = h \<and> even q)")
      case True
      then have "round53 n = q * 2 ^ e" "r \<le> h" using rd by auto
      with n h29 show ?thesis by linarith
    next
      case False
      then have "round53 n = q * 2 ^ e + 2 * h" "h \<le> r" using rd p by (auto simp: algebra_simps)
      with n h29 rlt show ?thesis by linarith
    qed
  qed
  then show "round53 n \<le> n + 2 ^ 29" "n \<le> round53 n + 2 ^ 29" by simp_all
qed

lemma mulberry32_call_step:
  assumes "t + 2 ^ 32 < 2 ^ 83"
  shows "\<exists>t1. mulberry32_call t = (real (unat (mulberry32_out (of_nat t1))) / 4294967296, t1)
           \<and> t + 2 ^ 29 < t1 \<and> t1 < t + 2 ^ 32"
proof -
  let ?t1 = "round53 (t + 0x6D2B79F5)"
  have "t + 0x6D2B79F5 < 2 ^ 83" using assms by simp
  from round53_near [OF this] have "t + 2 ^ 29 < ?t1" "?t1 < t + 2 ^ 32" by simp_all
  moreover have "mulberry32_call t = (real (unat (mulberry32_out (of_nat ?t1))) / 4294967296, ?t1)"
    by (simp add: mulberry32_call_def Let_def del: of_nat_unat)
  ultimately show ?thesis by blast
qed

lemma mulberry32_value_range:
  fixes w :: "32 word"
  shows "0 \<le> real (unat w) / 4294967296" "real (unat w) / 4294967296 < 1"
proof -
  have "unat w < 2 ^ 32" using unsigned_less [of w] by simp
  then have "real (unat w) < real (2 ^ 32)" by (simp only: of_nat_less_iff)
  then show "real (unat w) / 4294967296 < 1" by (simp del: of_nat_unat)
qed (simp del: of_nat_unat)

lemma mulberry32_value_zero:
  fixes w :: "32 word"
  shows "real (unat w) / 4294967296 = 0 \<longleftrightarrow> w = 0"
  using unsigned_eq_0_iff by fastforce

lemma draw_nonzero_unfold:
  "draw_nonzero g = (let (u, g') = rng_call g in if u = 0 then draw_nonzero g' else Some (u, g'))"
  by (rule draw_nonzero.simps)

lemma mulberry32_value_least:
  fixes w :: "32 word"
  assumes "w \<noteq> 0"
  shows "1 / 4294967296 \<le> real (unat w) / 4294967296"
proof -
  have "unat w \<noteq> 0" using assms by (simp add: unat_eq_0)
  then have "1 \<le> unat w" by simp
  then have "real 1 \<le> real (unat w)" by (simp only: of_nat_le_iff)
  then show ?thesis by (simp del: of_nat_unat)
qed

lemma draw_nonzero_Mulberry32:
  assumes "t + 2 ^ 33 * Suc d < 2 ^ 83"
  shows "\<exists>u t'. draw_nonzero (Mulberry32 t) = Some (u, Mulberry32 t')
           \<and> 1 / 4294967296 \<le> u \<and> u < 1 \<and> t' + 2 ^ 33 * d < 2 ^ 83"
proof -
  have "t + 2 ^ 32 < 2 ^ 83" using assms by simp
  from mulberry32_call_step [OF this] obtain t1 where
    c1: "mulberry32_call t = (real (unat (mulberry32_out (of_nat t1))) / 4294967296, t1)"
    and t1: "t + 2 ^ 29 < t1" "t1 < t + 2 ^ 32"
    by blast
  let ?w1 = "mulberry32_out (of_nat t1) :: 32 word"
  show ?thesis
  proof (cases "?w1 = 0")
    case False
    then have nz: "real (unat ?w1) / 4294967296 \<noteq> 0"
      using mulberry32_value_zero by blast
    have "draw_nonzero (Mulberry32 t) = Some (real (unat ?w1) / 4294967296, Mulberry32 t1)"
      using nz by (subst draw_nonzero_unfold) (simp only: rng_call.simps c1 Let_def split if_False)
    moreover have "t1 + 2 ^ 33 * d < 2 ^ 83" using assms t1(2) by simp
    ultimately show ?thesis
      using mulberry32_value_range(2) [of ?w1] mulberry32_value_least [OF False] by blast
  next
    case True
    then have "(of_nat t1 :: 32 word) = 0" by (simp only: mulberry32_out_zero)
    then have d1: "2 ^ 32 dvd t1" by (simp add: word_of_nat_eq_0_iff)
    have "t1 + 2 ^ 32 < 2 ^ 83" using assms t1(2) by simp
    from mulberry32_call_step [OF this] obtain t2 where
      c2: "mulberry32_call t1 = (real (unat (mulberry32_out (of_nat t2))) / 4294967296, t2)"
      and t2: "t1 + 2 ^ 29 < t2" "t2 < t1 + 2 ^ 32"
      by blast
    let ?w2 = "mulberry32_out (of_nat t2) :: 32 word"
    have "\<not> 2 ^ 32 dvd t2"
    proof
      assume "2 ^ 32 dvd t2"
      with d1 have "2 ^ 32 dvd t2 - t1" by (simp add: dvd_diff_nat)
      moreover have "0 < t2 - t1" "t2 - t1 < 2 ^ 32" using t2 by simp_all
      ultimately show False using dvd_imp_le by fastforce
    qed
    then have "(of_nat t2 :: 32 word) \<noteq> 0" by (simp add: word_of_nat_eq_0_iff)
    then have w2: "?w2 \<noteq> 0" using mulberry32_out_zero by blast
    then have nz: "real (unat ?w2) / 4294967296 \<noteq> 0"
      using mulberry32_value_zero by blast
    have z: "real (unat ?w1) / 4294967296 = 0" using True mulberry32_value_zero by blast
    have "draw_nonzero (Mulberry32 t1) = Some (real (unat ?w2) / 4294967296, Mulberry32 t2)"
      using nz by (subst draw_nonzero_unfold) (simp only: rng_call.simps c2 Let_def split if_False)
    moreover have "draw_nonzero (Mulberry32 t) = draw_nonzero (Mulberry32 t1)"
      by (subst draw_nonzero_unfold) (simp only: rng_call.simps c1 Let_def split z if_True refl)
    moreover have "t2 + 2 ^ 33 * d < 2 ^ 83" using assms t1(2) t2(2) by simp
    ultimately show ?thesis
      using mulberry32_value_range(2) [of ?w2] mulberry32_value_least [OF w2] by metis
  qed
qed

lemma draw_nonzero_System:
  "src 0 \<noteq> 0 \<Longrightarrow> draw_nonzero (System src) = Some (src 0, System (\<lambda>n. src (Suc n)))"
  by (subst draw_nonzero_unfold) (simp add: Math_random_def)

lemma draw_nonzero_fits:
  assumes "fits g (Suc d)"
  shows "\<exists>u g'. draw_nonzero g = Some (u, g') \<and> 0 < u \<and> u < 1 \<and> fits g' d"
proof (cases g)
  case (Mulberry32 t)
  with assms have "t + 2 ^ 33 * Suc d < 2 ^ 83" by simp
  from draw_nonzero_Mulberry32 [OF this] obtain u t' where
    "draw_nonzero (Mulberry32 t) = Some (u, Mulberry32 t')" "1 / 4294967296 \<le> u" "u < 1"
    "t' + 2 ^ 33 * d < 2 ^ 83"
    by blast
  then show ?thesis
    unfolding Mulberry32 by (intro exI [of _ u] exI [of _ "Mulberry32 t'"]) simp
next
  case (System src)
  with assms have r: "\<forall>n. 0 < src n \<and> src n < 1" by simp
  then have "src 0 \<noteq> 0" by (metis less_irrefl)
  from draw_nonzero_System [of src, OF this] r show ?thesis
    unfolding System by (intro exI [of _ "src 0"] exI [of _ "System (\<lambda>n. src (Suc n))"]) simp
qed

lemma draw_nonzero_fine:
  assumes "fine g (Suc d)"
  shows "\<exists>u g'. draw_nonzero g = Some (u, g') \<and> least_positive \<le> u \<and> u < 1 \<and> fine g' d"
proof (cases g)
  case (Mulberry32 t)
  with assms have "t + 2 ^ 33 * Suc d < 2 ^ 83" by simp
  from draw_nonzero_Mulberry32 [OF this] obtain u t' where
    u: "draw_nonzero (Mulberry32 t) = Some (u, Mulberry32 t')" "1 / 4294967296 \<le> u" "u < 1"
    "t' + 2 ^ 33 * d < 2 ^ 83"
    by blast
  have "least_positive \<le> 1 / 4294967296" by (simp add: least_positive_def)
  with u(2) have "least_positive \<le> u" by linarith
  with u show ?thesis
    unfolding Mulberry32 by (intro exI [of _ u] exI [of _ "Mulberry32 t'"]) simp
next
  case (System src)
  with assms have r: "\<forall>n. least_positive \<le> src n \<and> src n < 1" by (simp add: unit_open_def)
  then have "least_positive \<le> src 0" by blast
  then have "src 0 \<noteq> 0" using least_positive_pos by linarith
  from draw_nonzero_System [of src, OF this] r show ?thesis
    unfolding System
    by (intro exI [of _ "src 0"] exI [of _ "System (\<lambda>n. src (Suc n))"]) (simp add: unit_open_def)
qed

subsection \<open>Draws and scores of a run that returns\<close>

lemma ln_least_positive: "- 1074 \<le> ln least_positive"
proof -
  have "least_positive = inverse (2 ^ 1074)"
    unfolding least_positive_def by (rule inverse_eq_divide [symmetric])
  moreover have "ln (inverse (2 ^ 1074 :: real)) = - ln (2 ^ 1074)"
    by (rule ln_inverse)
  moreover have "ln ((2::real) ^ 1074) = real 1074 * ln 2"
    by (rule ln_realpow)
  ultimately have "ln least_positive = - (1074 * ln 2)"
    by (simp only: of_nat_numeral)
  moreover have "ln (2::real) < 1" by (rule ln_2_less_1)
  ultimately show ?thesis by simp
qed

lemma sqrt_ln_bound:
  assumes "least_positive \<le> u" "u \<le> 1"
  shows "0 \<le> - 2 * ln u" "0 \<le> sqrt (- 2 * ln u)" "sqrt (- 2 * ln u) \<le> 2148"
proof -
  have u0: "0 < u" using assms(1) least_positive_pos by linarith
  have l1: "ln u \<le> 0" using u0 assms(2) by simp
  have "ln least_positive \<le> ln u" using assms(1) least_positive_pos by simp
  then have l2: "- 1074 \<le> ln u" using ln_least_positive by linarith
  show a: "0 \<le> - 2 * ln u" using l1 by simp
  have "- 2 * ln u \<le> 2148 ^ 2" using l2 by simp
  then have "sqrt (- 2 * ln u) \<le> sqrt (2148 ^ 2)" by (simp only: real_sqrt_le_iff)
  then show "sqrt (- 2 * ln u) \<le> 2148" by simp
  show "0 \<le> sqrt (- 2 * ln u)" using a by simp
qed

lemma box_muller_Fin:
  assumes "least_positive \<le> u" "u \<le> 1" "0 \<le> v" "v \<le> 1"
  shows "box_muller (Fin u) (Fin v) = Fin (sqrt (- 2 * ln u) * cos (2 * pi * v))"
proof -
  have u0: "0 < u" using assms(1) least_positive_pos by linarith
  define a where "a = - 2 * ln u"
  have a: "0 \<le> a" "a \<le> 2148 ^ 2" and s: "0 \<le> sqrt a" "sqrt a \<le> 2148"
  proof -
    show "0 \<le> a" "0 \<le> sqrt a" "sqrt a \<le> 2148"
      unfolding a_def using sqrt_ln_bound [OF assms(1,2)] by simp_all
    then have "sqrt a * sqrt a \<le> 2148 * 2148" by (intro mult_mono) simp_all
    then show "a \<le> 2148 ^ 2" using \<open>0 \<le> a\<close> by (simp add: power2_eq_square)
  qed
  define b where "b = 2 * pi * v"
  have "pi * v \<le> 4 * 1" using pi_less_4 assms(3,4) by (intro mult_mono) simp_all
  then have b: "0 \<le> b" "b \<le> 8" unfolding b_def using assms(3) by simp_all
  have "\<bar>sqrt a * cos b\<bar> = sqrt a * \<bar>cos b\<bar>" using s(1) by (simp add: abs_mult)
  also have "\<dots> \<le> 2148 * 1" using s by (intro mult_mono) simp_all
  finally have m: "\<bar>sqrt a * cos b\<bar> \<le> 2148" by simp
  have e1: "js_mul (Fin (- 2)) (js_log (Fin u)) = Fin a"
    using u0 a by (simp add: a_def js_result_small)
  have e2: "js_sqrt (Fin a) = Fin (sqrt a)" using a(1) by simp
  have "js_mul (Fin 2) (Fin pi) = Fin (2 * pi)"
    using pi_less_4 pi_gt_zero by (intro js_mul_Fin) simp
  moreover have "js_mul (Fin (2 * pi)) (Fin v) = Fin b"
    unfolding b_def using b by (intro js_mul_Fin) (simp add: b_def)
  ultimately have e3: "js_cos (js_mul (js_mul (Fin 2) (Fin pi)) (Fin v)) = Fin (cos b)" by simp
  have e4: "js_mul (Fin (sqrt a)) (Fin (cos b)) = Fin (sqrt a * cos b)"
    using m by (intro js_mul_Fin) simp
  show ?thesis
    unfolding box_muller_def e1 e2 e3 e4 by (simp only: a_def b_def)
qed

lemma normal_of_box_muller: "normal_of u v = box_muller (Fin u) (Fin v)"
  by (simp add: normal_of_def box_muller_def)

lemma randn_fits:
  assumes "fits g (Suc (Suc d))"
  shows "\<exists>z g'. randn g = Some (z, g') \<and> fits g' d"
proof -
  from draw_nonzero_fits [OF assms] obtain u g1 where
    u: "draw_nonzero g = Some (u, g1)" and f1: "fits g1 (Suc d)" by blast
  from draw_nonzero_fits [OF f1] obtain v g2 where
    v: "draw_nonzero g1 = Some (v, g2)" and f2: "fits g2 d" by blast
  have "randn g = Some (box_muller (Fin u) (Fin v), g2)"
    by (simp add: randn_def u v)
  with f2 show ?thesis by blast
qed

lemma randn_fine:
  assumes "fine g (Suc (Suc d))"
  shows "\<exists>z g'. randn g = Some (Fin z, g') \<and> fine g' d"
proof -
  from draw_nonzero_fine [OF assms] obtain u g1 where
    u: "draw_nonzero g = Some (u, g1)" "least_positive \<le> u" "u < 1"
    and f1: "fine g1 (Suc d)" by blast
  from draw_nonzero_fine [OF f1] obtain v g2 where
    v: "draw_nonzero g1 = Some (v, g2)" "least_positive \<le> v" "v < 1"
    and f2: "fine g2 d" by blast
  have "0 \<le> v" using v(2) least_positive_pos by linarith
  then have "box_muller (Fin u) (Fin v) = Fin (sqrt (- 2 * ln u) * cos (2 * pi * v))"
    using u(2,3) v(3) by (intro box_muller_Fin) simp_all
  moreover have "randn g = Some (box_muller (Fin u) (Fin v), g2)"
    by (simp add: randn_def u(1) v(1))
  ultimately show ?thesis using f2 by simp
qed

lemma fits_mono: "fits g d \<Longrightarrow> d' \<le> d \<Longrightarrow> fits g d'"
proof (cases g)
  case (Mulberry32 t)
  assume a: "fits g d" "d' \<le> d"
  have "(2::nat) ^ 33 * d' \<le> 2 ^ 33 * d" using a(2) by simp
  with a(1) show ?thesis unfolding Mulberry32 fits.simps by linarith
qed simp

lemma normal_draws_fits:
  assumes "fits g (d + 2 * k)"
  shows "\<exists>zs g'. normal_draws k g = Some (zs, g') \<and> fits g' d"
  using assms
proof (induction k arbitrary: g)
  case 0
  then show ?case by simp
next
  case (Suc k)
  then have "fits g (Suc (Suc (d + 2 * k)))" by simp
  from randn_fits [OF this] obtain z g1 where
    z: "randn g = Some (z, g1)" and f1: "fits g1 (d + 2 * k)" by blast
  from Suc.IH [OF f1] obtain zs g2 where
    zs: "normal_draws k g1 = Some (zs, g2)" and f2: "fits g2 d" by blast
  have "normal_draws (Suc k) g = Some (z # zs, g2)"
    by (simp add: z zs)
  with f2 show ?case by blast
qed

lemma trial_score_js_sum:
  "trial_score en (Fin 0) g =
     Option.bind (normal_draws (length en) g) (\<lambda>(zs, g'). Some (js_sum (map2 contribution en zs), g'))"
  by (simp add: trial_score_acc js_sum_def)

lemma trial_score_fits:
  assumes "fits g (d + 2 * length en)"
  shows "\<exists>x g'. trial_score en (Fin 0) g = Some (x, g') \<and> fits g' d"
proof -
  from normal_draws_fits [OF assms] obtain zs g' where
    zs: "normal_draws (length en) g = Some (zs, g')" and f: "fits g' d" by blast
  show ?thesis
    using f by (simp add: trial_score_js_sum zs)
qed

lemma run_scores_fits:
  assumes "fits g (d + 2 * length en * n)"
  shows "\<exists>xs g'. run_scores n en g = Some (xs, g') \<and> fits g' d"
  using assms
proof (induction n arbitrary: g)
  case 0
  then show ?case by simp
next
  case (Suc n)
  then have "fits g ((d + 2 * length en * n) + 2 * length en)" by (simp add: algebra_simps)
  from trial_score_fits [OF this] obtain x g1 where
    x: "trial_score en (Fin 0) g = Some (x, g1)" and f1: "fits g1 (d + 2 * length en * n)"
    by blast
  from Suc.IH [OF f1] obtain xs g2 where
    xs: "run_scores n en g1 = Some (xs, g2)" and f2: "fits g2 d" by blast
  have "run_scores (Suc n) en g = Some (x # xs, g2)"
    by (simp add: x xs)
  with f2 show ?case by blast
qed

lemma run_scores_length:
  "run_scores n en g = Some (ss, g') \<Longrightarrow> length ss = n"
  by (induction n arbitrary: g ss) (auto split: bind_splits)

subsection \<open>The response in closed form\<close>

lemma js_div_nat:
  assumes "N \<noteq> 0" "k \<le> N"
  shows "js_div (Fin (real k)) (Fin (real N)) = Fin (real k / real N)"
proof -
  have "real k / real N \<le> 1" using assms by simp
  moreover have "0 \<le> real k / real N" by simp
  ultimately have "\<bar>real k / real N\<bar> \<le> 2 ^ 1000" by simp
  then show ?thesis using assms(1) by (simp add: js_result_small)
qed

lemma POST_run_scores:
  assumes "eff_iterations body = Fin (real N)" "N \<noteq> 0"
  shows "POST env body =
     map_option (\<lambda>(ss, g').
        let p = Fin (real (length (filter (\<lambda>x. js_gt x (eff_threshold body)) ss)) / real N)
        in \<lparr>r_iterations = Fin (real N), probabilitySuccess = p, r_label = label_of p,
            summary_threshold = eff_threshold body,
            summary_enabledCount = length (filter enabled (assumptions body))\<rparr>)
       (run_scores N (filter enabled (assumptions body)) (request_rng env body))"
proof -
  let ?en = "filter enabled (assumptions body)"
  let ?g = "request_rng env body"
  have t: "trials (Fin (real N)) (eff_threshold body) ?en 0 0 ?g =
     map_option (\<lambda>(ss, g'). (0 + length (filter (\<lambda>x. js_gt x (eff_threshold body)) ss), g'))
       (run_scores (N - 0) ?en ?g)"
    by (rule trials_run_scores) simp
  show ?thesis
  proof (cases "run_scores N ?en ?g")
    case None
    then show ?thesis using t by (simp add: POST_def assms(1) Let_def request_rng_def)
  next
    case (Some p)
    obtain ss g' where p: "p = (ss, g')" by (cases p)
    have "length ss = N" using Some p run_scores_length by blast
    then have "length (filter (\<lambda>x. js_gt x (eff_threshold body)) ss) \<le> N"
      using length_filter_le [of _ ss] by simp
    from js_div_nat [OF assms(2) this] show ?thesis
      using t
      by (simp add: POST_def assms(1) Let_def request_rng_def [symmetric] Some p)
  qed
qed

lemma label_of_Fin:
  "label_of (Fin p) = (if p < 0.33 then LOW else if p < 0.66 then MEDIUM else HIGH)"
  by (simp add: label_of_def)

lemma count_le_length: "length (filter P xs) \<le> length xs"
  by simp

subsection \<open>The request without spread\<close>

lemma unit_open_half_source: "unit_open half_source"
  by (simp add: unit_open_def half_source_def least_positive_def)

lemma sure_effective:
  "eff_mean sure_assumption = Fin 1" "eff_std sure_assumption = Fin 0"
  "eff_weight sure_assumption = Fin 1" "sign sure_assumption = Fin 1"
  by (simp_all add: sure_assumption_def eff_mean_def eff_std_def eff_weight_def sign_def
        clamp_def js_max_def js_min_def)

lemma trial_score_sure:
  assumes "fine g (d + 2)"
  shows "\<exists>g'. trial_score [sure_assumption] (Fin 0) g = Some (Fin 1, g') \<and> fine g' d"
proof -
  from assms have "fine g (Suc (Suc d))" by simp
  from randn_fine [OF this] obtain z g' where
    z: "randn g = Some (Fin z, g')" and f: "fine g' d" by blast
  have "js_add (Fin 0) (js_mul (js_mul (Fin 1) (Fin 1)) (js_add (Fin 1) (js_mul (Fin 0) (Fin z))))
      = Fin 1"
    by (simp add: js_result_small)
  then show ?thesis
    using f by (simp add: z sure_effective)
qed

lemma run_scores_sure:
  assumes "fine g (d + 2 * n)"
  shows "\<exists>g'. run_scores n [sure_assumption] g = Some (replicate n (Fin 1), g') \<and> fine g' d"
  using assms
proof (induction n arbitrary: g)
  case 0
  then show ?case by simp
next
  case (Suc n)
  then have "fine g ((d + 2 * n) + 2)" by (simp add: algebra_simps)
  from trial_score_sure [OF this] obtain g1 where
    x: "trial_score [sure_assumption] (Fin 0) g = Some (Fin 1, g1)"
    and f1: "fine g1 (d + 2 * n)"
    by blast
  from Suc.IH [OF f1] obtain g2 where
    xs: "run_scores n [sure_assumption] g1 = Some (replicate n (Fin 1), g2)"
    and f2: "fine g2 d" by blast
  show ?case using f2 by (simp add: x xs del: trial_score.simps)
qed

lemma sure_request_effective:
  "eff_iterations sure_request = Fin (real 50000)" "eff_threshold sure_request = Fin 0"
  by (simp_all add: sure_request_def eff_iterations_def eff_threshold_def
        clamp_def js_max_def js_min_def)

lemma seeded_request_effective:
  "eff_iterations seeded_request = Fin (real 50000)" "eff_threshold seeded_request = Fin 0"
  by (simp_all add: seeded_request_def sure_request_def eff_iterations_def eff_threshold_def
        clamp_def js_max_def js_min_def)

lemma POST_sure_request: "POST half_source sure_request = Some sure_response"
proof -
  have f: "fine (request_rng half_source sure_request) (0 + 2 * 50000)"
    by (simp add: request_rng_def sure_request_def unit_open_half_source)
  from run_scores_sure [OF f] obtain g' where
    "run_scores 50000 [sure_assumption] (request_rng half_source sure_request) =
       Some (replicate 50000 (Fin 1), g')"
    by auto
  moreover have "filter enabled (assumptions sure_request) = [sure_assumption]"
    by (simp add: sure_request_def sure_assumption_def)
  ultimately show ?thesis
    by (simp add: POST_run_scores [OF sure_request_effective(1)] sure_request_effective(2)
          js_gt_def label_of_def sure_response_def)
qed

lemma POST_seeded_request: "POST env seeded_request = Some sure_response"
proof -
  have f: "fine (request_rng env seeded_request) (0 + 2 * 50000)"
    by (simp add: request_rng_def seeded_request_def sure_request_def mulberry32_def)
  from run_scores_sure [OF f] obtain g' where
    "run_scores 50000 [sure_assumption] (request_rng env seeded_request) =
       Some (replicate 50000 (Fin 1), g')"
    by auto
  moreover have "filter enabled (assumptions seeded_request) = [sure_assumption]"
    by (simp add: seeded_request_def sure_request_def sure_assumption_def)
  ultimately show ?thesis
    by (simp add: POST_run_scores [OF seeded_request_effective(1)] seeded_request_effective(2)
          js_gt_def label_of_def sure_response_def)
qed

subsection \<open>Draws of a run, and runs that return\<close>

lemma normal_draws_length:
  "normal_draws k g = Some (zs, g') \<Longrightarrow> length zs = k"
  by (induction k arbitrary: g zs) (auto split: bind_splits)

lemma run_scores_trial_draws:
  "run_scores n en g =
     map_option (\<lambda>(zss, g'). (map (\<lambda>zs. js_sum (map2 contribution en zs)) zss, g'))
       (trial_draws n (length en) g)"
proof (induction n arbitrary: g)
  case 0
  show ?case by simp
next
  case (Suc n)
  show ?case
  proof (cases "normal_draws (length en) g")
    case None
    then show ?thesis by (simp add: trial_score_js_sum)
  next
    case (Some p)
    obtain zs g1 where p: "p = (zs, g1)" by (cases p)
    show ?thesis
      by (cases "trial_draws n (length en) g1")
         (auto simp: trial_score_js_sum Some p Suc.IH)
  qed
qed

lemma trial_draws_lengths:
  "trial_draws n k g = Some (zss, g') \<Longrightarrow> length zss = n \<and> (\<forall>zs\<in>set zss. length zs = k)"
proof (induction n arbitrary: g zss)
  case 0
  then show ?case by simp
next
  case (Suc n)
  then show ?case
    by (fastforce split: bind_splits dest: normal_draws_length)
qed

lemma POST_enabled_only:
  "POST env (body\<lparr>assumptions := filter enabled (assumptions body)\<rparr>) = POST env body"
  by (simp add: POST_def eff_iterations_def eff_threshold_def)

lemma to_uint32_less: "to_uint32 s < 2 ^ 32"
proof (cases s)
  case (Fin a)
  have "(if 0 \<le> a then \<lfloor>a\<rfloor> else - \<lfloor>- a\<rfloor>) mod 2 ^ 32 < 2 ^ 32"
    by (rule pos_mod_bound) simp
  then show ?thesis unfolding Fin by (simp del: )
qed simp_all

lemma POST_returns:
  assumes "fits (request_rng env body) (2 * length (filter enabled (assumptions body)) * 300000)"
  shows "\<exists>r. POST env body = Some r \<and> r_iterations r = eff_iterations body
             \<and> summary_threshold r = eff_threshold body"
proof -
  obtain N where N: "eff_iterations body = Fin (real N)" "1000 \<le> N" "N \<le> 300000"
    using eff_iterations_nat by blast
  let ?en = "filter enabled (assumptions body)"
  have "0 + 2 * length ?en * N \<le> 2 * length ?en * 300000" using N(3) by simp
  with assms have "fits (request_rng env body) (0 + 2 * length ?en * N)"
    by (rule fits_mono)
  from run_scores_fits [OF this] obtain xs g' where
    "run_scores N ?en (request_rng env body) = Some (xs, g')" by blast
  moreover have "N \<noteq> 0" using N(2) by simp
  ultimately show ?thesis
    by (simp add: POST_run_scores [OF N(1)] N(1) Let_def)
qed

lemma seeded_fits:
  assumes "k \<le> 1000000000"
  shows "fits (mulberry32 s) (2 * k * 300000)"
proof -
  have "to_uint32 s < 2 ^ 32" by (rule to_uint32_less)
  moreover have "(2::nat) ^ 33 * (2 * k * 300000) \<le> 2 ^ 33 * (2 * 1000000000 * 300000)"
    using assms by simp
  ultimately show ?thesis by (simp add: mulberry32_def)
qed

subsection \<open>The draws of a run, call by call\<close>

lemma after_calls_add: "after_calls (a + b) g = after_calls b (after_calls a g)"
  by (induction a arbitrary: g) simp_all

lemma call_value_after: "call_value (after_calls k g) n = call_value g (k + n)"
  by (simp add: call_value_def after_calls_add)

lemma after_calls_System: "after_calls n (System src) = System (\<lambda>k. src (k + n))"
  by (induction n arbitrary: src) (simp_all add: Math_random_def)

lemma call_value_System: "call_value (System src) n = src n"
  by (simp add: call_value_def after_calls_System Math_random_def)

lemma draw_nonzero_call:
  assumes "call_value g 0 \<noteq> 0"
  shows "draw_nonzero g = Some (call_value g 0, snd (rng_call g))"
  using assms
  by (subst draw_nonzero_unfold) (simp add: call_value_def case_prod_beta)

lemma randn_calls:
  assumes "call_value g 0 \<noteq> 0" "call_value g (Suc 0) \<noteq> 0"
  shows "randn g = Some (normal_of (call_value g 0) (call_value g (Suc 0)), after_calls 2 g)"
proof -
  let ?g1 = "snd (rng_call g)"
  have 1: "draw_nonzero g = Some (call_value g 0, ?g1)"
    using assms(1) by (rule draw_nonzero_call)
  have v: "call_value ?g1 0 = call_value g (Suc 0)"
    by (simp add: call_value_def)
  then have "call_value ?g1 0 \<noteq> 0" using assms(2) by simp
  then have "draw_nonzero ?g1 = Some (call_value ?g1 0, snd (rng_call ?g1))"
    by (rule draw_nonzero_call)
  moreover have "snd (rng_call ?g1) = after_calls 2 g"
    by (simp add: numeral_2_eq_2)
  ultimately have 2: "draw_nonzero ?g1 = Some (call_value g (Suc 0), after_calls 2 g)"
    using v by simp
  show ?thesis
    unfolding randn_def 1 by (simp add: 2 normal_of_box_muller)
qed

lemma normal_draws_calls:
  assumes "\<forall>n<2 * k. call_value g n \<noteq> 0"
  shows "normal_draws k g =
     Some (map (\<lambda>j. normal_of (call_value g (2 * j)) (call_value g (2 * j + 1))) [0..<k],
           after_calls (2 * k) g)"
  using assms
proof (induction k arbitrary: g)
  case 0
  show ?case by simp
next
  case (Suc k)
  let ?g2 = "after_calls 2 g"
  have 0: "call_value g 0 \<noteq> 0" "call_value g (Suc 0) \<noteq> 0" using Suc.prems by simp_all
  have r: "randn g = Some (normal_of (call_value g 0) (call_value g (Suc 0)), ?g2)"
    using 0 by (rule randn_calls)
  have "\<forall>n<2 * k. call_value ?g2 n \<noteq> 0"
  proof (intro allI impI)
    fix n assume "n < 2 * k"
    then have "2 + n < 2 * Suc k" by simp
    from Suc.prems [rule_format, OF this] show "call_value ?g2 n \<noteq> 0"
      unfolding call_value_after .
  qed
  from Suc.IH [OF this] have ih:
    "normal_draws k ?g2 =
       Some (map (\<lambda>j. normal_of (call_value ?g2 (2 * j)) (call_value ?g2 (2 * j + 1))) [0..<k],
             after_calls (2 * k) ?g2)" .
  have a: "after_calls (2 * k) ?g2 = after_calls (2 * Suc k) g"
    using after_calls_add [of 2 "2 * k" g] by simp
  have b: "(\<lambda>j. normal_of (call_value ?g2 (2 * j)) (call_value ?g2 (2 * j + 1)))
      = (\<lambda>j. normal_of (call_value g (2 * Suc j)) (call_value g (2 * Suc j + 1)))"
    by (intro ext) (simp add: call_value_after)
  have c: "map (\<lambda>j. normal_of (call_value g (2 * j)) (call_value g (2 * j + 1))) [0..<Suc k]
      = normal_of (call_value g 0) (call_value g (Suc 0))
        # map (\<lambda>j. normal_of (call_value g (2 * Suc j)) (call_value g (2 * Suc j + 1))) [0..<k]"
    by (simp add: map_upt_Suc del: upt_Suc)
  show ?case
    unfolding c by (simp add: r ih a call_value_after del: upt_Suc)
qed

lemma map2_nth:
  "length xs = k \<Longrightarrow> map2 f xs (map h [0..<k]) = map (\<lambda>j. f (xs ! j) (h j)) [0..<k]"
  by (auto simp: list_eq_iff_nth_eq)

lemma trial_score_calls:
  assumes "\<forall>n<2 * length en. call_value g n \<noteq> 0"
  shows "trial_score en (Fin 0) g = Some (score_of en g 0, after_calls (2 * length en) g)"
  by (simp add: trial_score_js_sum normal_draws_calls [OF assms] map2_nth score_of_def)

lemma score_of_after:
  "score_of en (after_calls (2 * length en) g) i = score_of en g (Suc i)"
proof -
  have "2 * length en + 2 * (i * length en + j) = 2 * (Suc i * length en + j)" for j
    by simp
  then show ?thesis
    unfolding score_of_def call_value_after by (simp add: add.assoc)
qed

lemma run_scores_calls:
  assumes "\<forall>n<2 * N * length en. call_value g n \<noteq> 0"
  shows "run_scores N en g
       = Some (map (score_of en g) [0..<N], after_calls (2 * N * length en) g)"
  using assms
proof (induction N arbitrary: g)
  case 0
  show ?case by simp
next
  case (Suc N)
  let ?g1 = "after_calls (2 * length en) g"
  have "\<forall>n<2 * length en. call_value g n \<noteq> 0" using Suc.prems by simp
  then have t: "trial_score en (Fin 0) g = Some (score_of en g 0, ?g1)"
    by (rule trial_score_calls)
  have "\<forall>n<2 * N * length en. call_value ?g1 n \<noteq> 0"
  proof (intro allI impI)
    fix n assume "n < 2 * N * length en"
    then have "2 * length en + n < 2 * Suc N * length en" by simp
    from Suc.prems [rule_format, OF this] show "call_value ?g1 n \<noteq> 0"
      unfolding call_value_after .
  qed
  from Suc.IH [OF this] have ih:
    "run_scores N en ?g1
       = Some (map (score_of en ?g1) [0..<N], after_calls (2 * N * length en) ?g1)" .
  have a: "after_calls (2 * N * length en) ?g1 = after_calls (2 * Suc N * length en) g"
    using after_calls_add [of "2 * length en" "2 * N * length en" g] by simp
  have b: "score_of en ?g1 = (\<lambda>i. score_of en g (Suc i))"
    by (intro ext) (rule score_of_after)
  have c: "map (score_of en g) [0..<Suc N]
      = score_of en g 0 # map (\<lambda>i. score_of en g (Suc i)) [0..<N]"
    by (simp add: map_upt_Suc del: upt_Suc)
  have "run_scores (Suc N) en g
      = Some (score_of en g 0 # map (\<lambda>i. score_of en g (Suc i)) [0..<N],
              after_calls (2 * Suc N * length en) g)"
    by (simp add: t ih a b)
  then show ?case unfolding c .
qed

lemma filter_map_length:
  "length (filter P (map f xs)) = length (filter (\<lambda>x. P (f x)) xs)"
  by (induction xs) simp_all

lemma POST_calls:
  assumes "eff_iterations body = Fin (real N)"
    and "\<forall>n<2 * N * length (filter enabled (assumptions body)).
           call_value (request_rng env body) n \<noteq> 0"
  shows "POST env body =
     Some \<lparr>r_iterations = eff_iterations body,
           probabilitySuccess =
             Fin (real (length (filter (\<lambda>i. js_gt (score_of (filter enabled (assumptions body))
                                                     (request_rng env body) i)
                                               (eff_threshold body)) [0..<N])) / real N),
           r_label = label_of
             (Fin (real (length (filter (\<lambda>i. js_gt (score_of (filter enabled (assumptions body))
                                                     (request_rng env body) i)
                                               (eff_threshold body)) [0..<N])) / real N)),
           summary_threshold = eff_threshold body,
           summary_enabledCount = length (filter enabled (assumptions body))\<rparr>"
proof -
  obtain K where K: "eff_iterations body = Fin (real K)" "1000 \<le> K"
    using eff_iterations_nat by blast
  with assms(1) have "N = K" by simp
  with K have N0: "N \<noteq> 0" by simp
  show ?thesis
    by (simp add: POST_run_scores [OF assms(1) N0] run_scores_calls [OF assms(2)]
          filter_map_length assms(1) Let_def comp_def)
qed

subsection \<open>The request with a gain, a loss and an idle entry\<close>

lemma sqrt_two_ln_two: "1 \<le> sqrt (2 * ln 2)" "sqrt (2 * ln 2) \<le> 2"
proof -
  have "exp (1 / 2 :: real) \<le> 1 + 1 / 2 + (1 / 2)\<^sup>2" by (intro exp_bound) simp_all
  then have "exp (1 / 2 :: real) \<le> 2" by (simp add: power2_eq_square)
  then have "1 / 2 \<le> ln (2::real)" by (subst ln_ge_iff) simp_all
  then have "1 \<le> 2 * ln (2::real)" by simp
  then have "sqrt 1 \<le> sqrt (2 * ln 2)" by (simp only: real_sqrt_le_iff)
  then show "1 \<le> sqrt (2 * ln 2)" by simp
  have "ln (2::real) < 1" by (rule ln_2_less_1)
  then have "2 * ln (2::real) \<le> 4" by simp
  then have "sqrt (2 * ln 2) \<le> sqrt 4" by (simp only: real_sqrt_le_iff)
  then show "sqrt (2 * ln 2) \<le> 2" by simp
qed

lemma normal_of_half: "normal_of (1 / 2) (1 / 2) = Fin (- sqrt (2 * ln 2))"
proof -
  have "box_muller (Fin (1 / 2)) (Fin (1 / 2))
      = Fin (sqrt (- 2 * ln (1 / 2)) * cos (2 * pi * (1 / 2)))"
    by (rule box_muller_Fin) (simp_all add: least_positive_def)
  moreover have "ln (1 / 2 :: real) = - ln 2" by (simp add: ln_div)
  ultimately show ?thesis by (simp add: normal_of_box_muller)
qed

lemma mixed_enabled: "filter enabled (assumptions mixed_request) = [gain, loss]"
  by (simp add: mixed_request_def gain_def loss_def idle_def)

lemma mixed_effective:
  "eff_iterations mixed_request = Fin (real 1000)" "eff_threshold mixed_request = Fin 0"
  by (simp_all add: mixed_request_def eff_iterations_def eff_threshold_def
        clamp_def js_max_def js_min_def)

lemma contribution_gain: "contribution gain (Fin (- sqrt (2 * ln 2))) = Fin (4 - 4 * sqrt (2 * ln 2))"
proof -
  define s where "s = sqrt (2 * ln 2)"
  have s: "1 \<le> s" "s \<le> 2" unfolding s_def by (rule sqrt_two_ln_two)+
  have 1: "js_result (- s) = Fin (- s)" using s by (intro js_result_bounded) argo+
  have 2: "js_result (1 - s) = Fin (1 - s)" using s by (intro js_result_bounded) argo+
  have 3: "js_result (4 - 4 * s) = Fin (4 - 4 * s)"
    using s by (intro js_result_bounded) argo+
  have 4: "js_result 4 = Fin 4" by (intro js_result_bounded) simp_all
  have "contribution gain (Fin (- s)) = Fin (4 - 4 * s)"
    by (simp add: contribution_def gain_def 1 2 3 4)
  then show ?thesis unfolding s_def .
qed

lemma contribution_loss: "contribution loss (Fin z) = Fin (- 1)"
  by (simp add: contribution_def loss_def js_result_bounded)

lemma score_of_mixed: "score_of [gain, loss] (System half_source) i = Fin mixed_score"
proof -
  define s where "s = sqrt (2 * ln 2)"
  have s: "1 \<le> s" "s \<le> 2" unfolding s_def by (rule sqrt_two_ln_two)+
  have 1: "js_result (4 - 4 * s) = Fin (4 - 4 * s)"
    using s by (intro js_result_bounded) argo+
  have 2: "js_result (3 - 4 * s) = Fin (3 - 4 * s)"
    using s by (intro js_result_bounded) argo+
  have "js_sum [Fin (4 - 4 * s), Fin (- 1)] = Fin (3 - 4 * s)"
    by (simp add: js_sum_def 1 2)
  moreover have "[0..<2] = [0, Suc 0]" by (simp add: upt_rec)
  ultimately show ?thesis
    by (simp add: score_of_def call_value_System half_source_def normal_of_half
          contribution_gain contribution_loss mixed_score_def s_def)
qed

lemma mixed_score_negative: "mixed_score < 0"
  unfolding mixed_score_def using sqrt_two_ln_two by argo

lemma POST_mixed_request: "POST half_source mixed_request = Some mixed_response"
proof -
  have g: "request_rng half_source mixed_request = System half_source"
    by (simp add: request_rng_def mixed_request_def)
  have "\<forall>n<2 * 1000 * length (filter enabled (assumptions mixed_request)).
          call_value (request_rng half_source mixed_request) n \<noteq> 0"
    unfolding g call_value_System by (simp add: half_source_def)
  from POST_calls [OF mixed_effective(1) this] show ?thesis
    using mixed_score_negative
    by (simp add: mixed_enabled g score_of_mixed mixed_effective js_gt_def label_of_def
          mixed_response_def)
qed

subsection \<open>What randn draws\<close>

lemma draw_nonzero_result:
  assumes "draw_nonzero g = Some p"
  shows "fst p \<noteq> 0"
proof (rule draw_nonzero.raw_induct [where P = "\<lambda>g p. fst p \<noteq> 0", OF _ assms])
  fix draw g p
  assume IH: "\<And>x y. draw x = Some y \<Longrightarrow> fst y \<noteq> 0"
    and b: "(let (u, g') = rng_call g in if u = 0 then draw g' else Some (u, g')) = Some p"
  obtain u g1 where c: "rng_call g = (u, g1)" by (cases "rng_call g")
  show "fst p \<noteq> 0"
  proof (cases "u = 0")
    case True
    with b c have "draw g1 = Some p" by simp
    then show ?thesis by (rule IH)
  next
    case False
    with b c show ?thesis by auto
  qed
qed

lemma randn_draws_nonzero:
  assumes "randn g = Some (z, g')"
  shows "\<exists>u v. u \<noteq> 0 \<and> v \<noteq> 0 \<and> z = box_muller (Fin u) (Fin v)"
proof -
  from assms obtain u g1 v g2 where
    u: "draw_nonzero g = Some (u, g1)" and v: "draw_nonzero g1 = Some (v, g2)"
    and z: "z = box_muller (Fin u) (Fin v)"
    unfolding randn_def by (auto split: bind_splits)
  from draw_nonzero_result [OF u] draw_nonzero_result [OF v] z show ?thesis by auto
qed

lemma randn_first_zero_source:
  "randn (System first_zero_source)
     = Some (box_muller (Fin (1 / 2)) (Fin (1 / 2)), System (advance 3 first_zero_source))"
proof -
  let ?s1 = "\<lambda>n. first_zero_source (Suc n)"
  let ?s2 = "\<lambda>n. first_zero_source (Suc (Suc n))"
  let ?s3 = "\<lambda>n. first_zero_source (Suc (Suc (Suc n)))"
  have 0: "draw_nonzero (System first_zero_source) = draw_nonzero (System ?s1)"
    by (subst draw_nonzero_unfold) (simp add: Math_random_def first_zero_source_def)
  have 1: "draw_nonzero (System ?s1) = Some (1 / 2, System ?s2)"
    using draw_nonzero_System [of ?s1] by (simp add: first_zero_source_def)
  have 2: "draw_nonzero (System ?s2) = Some (1 / 2, System ?s3)"
    using draw_nonzero_System [of ?s2] by (simp add: first_zero_source_def)
  have 3: "?s3 = advance 3 first_zero_source"
    by (simp add: advance_def numeral_eq_Suc)
  show ?thesis
    unfolding randn_def 0 1 by (simp add: 2 3)
qed


section \<open>Claims about the HTTP route\<close>

text \<open>
  Claim C1. The route returns whenever its generator keeps giving usable draws, and in
  every run that returns the score of each trial is the sum, over the enabled assumptions
  in order, of \<open>(direction == negative ? -1 : 1) * weight * (mean + std * z)\<close>, where
  \<open>mean\<close>, \<open>std\<close> and \<open>weight\<close> are the route's constants of those names (the fields
  after clamping) and \<open>z\<close> is a normal draw of its own: the draws of the run are
  successive calls of \<open>randn\<close> on the one generator, as many to a trial as there are
  enabled assumptions. When no call of the generator gives 0, the draw of assumption \<open>j\<close>
  in trial \<open>i\<close> is the Box-Muller value of the calls number \<open>2 * (i * m + j)\<close> and
  \<open>2 * (i * m + j) + 1\<close>, \<open>m\<close> being the number of enabled assumptions, so that no
  two draws share a call.
  Assumptions that are not enabled do not enter: the response is the response to the
  request without them, and \<open>enabledCount\<close> counts the enabled ones only.
\<close>

theorem weighted_sum_score:
  "(fits (request_rng env body) (2 * length (filter enabled (assumptions body)) * 300000) \<longrightarrow>
      (\<exists>r. POST env body = Some r))
   \<and> (\<forall>r. POST env body = Some r \<longrightarrow>
        (\<exists>N zss g'.
           eff_iterations body = Fin (real N)
         \<and> trial_draws N (length (filter enabled (assumptions body))) (request_rng env body)
             = Some (zss, g')
         \<and> run_scores N (filter enabled (assumptions body)) (request_rng env body)
             = Some (map (\<lambda>zs. js_sum (map2 contribution (filter enabled (assumptions body)) zs)) zss, g')
         \<and> length zss = N
         \<and> (\<forall>zs\<in>set zss. length zs = length (filter enabled (assumptions body)))
         \<and> summary_enabledCount r = length (filter enabled (assumptions body))
         \<and> POST env (body\<lparr>assumptions := filter enabled (assumptions body)\<rparr>) = Some r))
   \<and> (\<forall>N. eff_iterations body = Fin (real N)
          \<and> (\<forall>n<2 * N * length (filter enabled (assumptions body)).
                call_value (request_rng env body) n \<noteq> 0) \<longrightarrow>
        run_scores N (filter enabled (assumptions body)) (request_rng env body)
          = Some (map (score_of (filter enabled (assumptions body)) (request_rng env body)) [0..<N],
                  after_calls (2 * N * length (filter enabled (assumptions body)))
                    (request_rng env body))
        \<and> (\<exists>r. POST env body = Some r
              \<and> summary_enabledCount r = length (filter enabled (assumptions body))))
   \<and> (\<forall>a z. contribution a z =
          js_mul (js_mul (if direction a = ''negative'' then Fin (- 1) else Fin 1) (eff_weight a))
                 (js_add (eff_mean a) (js_mul (eff_std a) z)))
   \<and> (\<forall>u v. least_positive \<le> u \<and> u \<le> 1 \<and> 0 \<le> v \<and> v \<le> 1 \<longrightarrow>
          normal_of u v = Fin (sqrt (- 2 * ln u) * cos (2 * pi * v)))"
proof -
  let ?en = "filter enabled (assumptions body)"
  let ?g = "request_rng env body"
  obtain K where K: "eff_iterations body = Fin (real K)" "1000 \<le> K"
    using eff_iterations_nat by blast
  then have K0: "K \<noteq> 0" by simp
  have main: "\<exists>N zss g'.
           eff_iterations body = Fin (real N)
         \<and> trial_draws N (length ?en) ?g = Some (zss, g')
         \<and> run_scores N ?en ?g = Some (map (\<lambda>zs. js_sum (map2 contribution ?en zs)) zss, g')
         \<and> length zss = N
         \<and> (\<forall>zs\<in>set zss. length zs = length ?en)
         \<and> summary_enabledCount r = length ?en
         \<and> POST env (body\<lparr>assumptions := ?en\<rparr>) = Some r"
    if r: "POST env body = Some r" for r
  proof -
    from r obtain ss g' where ss: "run_scores K ?en ?g = Some (ss, g')"
      unfolding POST_run_scores [OF K(1) K0] by auto
    then obtain zss where z: "trial_draws K (length ?en) ?g = Some (zss, g')"
      and s: "ss = map (\<lambda>zs. js_sum (map2 contribution ?en zs)) zss"
      unfolding run_scores_trial_draws by auto
    have "summary_enabledCount r = length ?en"
      using r unfolding POST_run_scores [OF K(1) K0] by (auto simp: ss Let_def)
    with K(1) z ss s trial_draws_lengths [OF z] r show ?thesis
      unfolding POST_enabled_only by blast
  qed
  have ret: "\<exists>r. POST env body = Some r" if "fits ?g (2 * length ?en * 300000)"
    using POST_returns [OF that] by blast
  have calls: "run_scores N ?en ?g
          = Some (map (score_of ?en ?g) [0..<N], after_calls (2 * N * length ?en) ?g)
        \<and> (\<exists>r. POST env body = Some r \<and> summary_enabledCount r = length ?en)"
    if "eff_iterations body = Fin (real N) \<and> (\<forall>n<2 * N * length ?en. call_value ?g n \<noteq> 0)"
    for N
  proof -
    from that have N: "eff_iterations body = Fin (real N)"
      and c: "\<forall>n<2 * N * length ?en. call_value ?g n \<noteq> 0" by blast+
    from POST_calls [OF N c] run_scores_calls [OF c] show ?thesis by simp
  qed
  have con: "contribution a z =
          js_mul (js_mul (if direction a = ''negative'' then Fin (- 1) else Fin 1) (eff_weight a))
                 (js_add (eff_mean a) (js_mul (eff_std a) z))" for a z
    by (simp add: contribution_code sign_def)
  have nor: "normal_of u v = Fin (sqrt (- 2 * ln u) * cos (2 * pi * v))"
    if "least_positive \<le> u \<and> u \<le> 1 \<and> 0 \<le> v \<and> v \<le> 1" for u v
    unfolding normal_of_box_muller using that by (intro box_muller_Fin) simp_all
  show ?thesis
    using ret main calls con nor by (intro conjI allI impI) blast+
qed

theorem weighted_sum_score_witness:
  "fits (request_rng half_source mixed_request)
     (2 * length (filter enabled (assumptions mixed_request)) * 300000)
   \<and> POST half_source mixed_request = Some mixed_response
   \<and> length (assumptions mixed_request) = 3
   \<and> filter enabled (assumptions mixed_request) = [gain, loss]
   \<and> summary_enabledCount mixed_response = 2
   \<and> probabilitySuccess mixed_response = Fin 0
   \<and> run_scores 1000 [gain, loss] (System half_source)
       = Some (replicate 1000 (Fin mixed_score), System half_source)
   \<and> mixed_score < 0
   \<and> normal_of (1 / 2) (1 / 2) = Fin (sqrt (- 2 * ln (1 / 2)) * cos (2 * pi * (1 / 2)))
   \<and> contribution gain (Fin (- sqrt (2 * ln 2))) = Fin (4 - 4 * sqrt (2 * ln 2))
   \<and> contribution loss (Fin (- sqrt (2 * ln 2))) = Fin (- 1)
   \<and> POST half_source (mixed_request\<lparr>assumptions := [gain, loss]\<rparr>) = Some mixed_response"
proof -
  note t = weighted_sum_score [of half_source mixed_request]
  have g: "request_rng half_source mixed_request = System half_source"
    by (simp add: request_rng_def mixed_request_def)
  have c: "\<forall>n<2 * 1000 * length (filter enabled (assumptions mixed_request)).
          call_value (request_rng half_source mixed_request) n \<noteq> 0"
    unfolding g call_value_System by (simp add: half_source_def)
  from t mixed_effective(1) c have
    "run_scores 1000 (filter enabled (assumptions mixed_request))
        (request_rng half_source mixed_request)
      = Some (map (score_of (filter enabled (assumptions mixed_request))
                     (request_rng half_source mixed_request)) [0..<1000],
              after_calls (2 * 1000 * length (filter enabled (assumptions mixed_request)))
                (request_rng half_source mixed_request))"
    by blast
  moreover have "score_of [gain, loss] (System half_source) = (\<lambda>i. Fin mixed_score)"
    by (intro ext) (rule score_of_mixed)
  moreover have "after_calls k (System half_source) = System half_source" for k
    by (simp add: after_calls_System half_source_def)
  ultimately have r: "run_scores 1000 [gain, loss] (System half_source)
       = Some (replicate 1000 (Fin mixed_score), System half_source)"
    unfolding g mixed_enabled by (simp add: map_replicate_const)
  from t POST_mixed_request have
    p: "POST half_source (mixed_request\<lparr>assumptions := filter enabled (assumptions mixed_request)\<rparr>)
         = Some mixed_response"
    by blast
  have "least_positive \<le> 1 / 2 \<and> (1 / 2 :: real) \<le> 1 \<and> (0::real) \<le> 1 / 2 \<and> (1 / 2 :: real) \<le> 1"
    by (simp add: least_positive_def)
  with t have n: "normal_of (1 / 2) (1 / 2) = Fin (sqrt (- 2 * ln (1 / 2)) * cos (2 * pi * (1 / 2)))"
    by blast
  have l: "length (assumptions mixed_request) = 3"
    by (simp add: mixed_request_def)
  have f: "fits (request_rng half_source mixed_request)
     (2 * length (filter enabled (assumptions mixed_request)) * 300000)"
    unfolding g by (simp add: half_source_def)
  have e: "summary_enabledCount mixed_response = 2" "probabilitySuccess mixed_response = Fin 0"
    by (simp_all add: mixed_response_def)
  show ?thesis
    using f POST_mixed_request l mixed_enabled e r mixed_score_negative n contribution_gain
      contribution_loss [of "- sqrt (2 * ln 2)"] p
    unfolding mixed_enabled by (intro conjI)
qed

text \<open>
  Claim C2. The route returns whenever its generator keeps giving usable draws, and in
  every run that returns \<open>probabilitySuccess\<close> is the number
  of trials whose score is greater than the threshold, divided by the iteration count; it
  lies between 0 and 1; and the label is LOW below 0.33, MEDIUM from 0.33 and below 0.66,
  HIGH from 0.66, so that 0.33 itself is MEDIUM and 0.66 itself is HIGH.
\<close>

theorem probability_and_label:
  "(fits (request_rng env body) (2 * length (filter enabled (assumptions body)) * 300000) \<longrightarrow>
      (\<exists>r. POST env body = Some r))
   \<and> (\<forall>r. POST env body = Some r \<longrightarrow>
        (\<exists>N ss g' p.
           eff_iterations body = Fin (real N) \<and> 1000 \<le> N \<and> N \<le> 300000
         \<and> run_scores N (filter enabled (assumptions body)) (request_rng env body) = Some (ss, g')
         \<and> length ss = N
         \<and> p = real (length (filter (\<lambda>s. js_gt s (eff_threshold body)) ss)) / real N
         \<and> probabilitySuccess r = Fin p \<and> 0 \<le> p \<and> p \<le> 1
         \<and> r_label r = (if p < 0.33 then LOW else if p < 0.66 then MEDIUM else HIGH)))
   \<and> label_of (Fin 0.33) = MEDIUM \<and> label_of (Fin 0.66) = HIGH"
proof -
  let ?en = "filter enabled (assumptions body)"
  let ?g = "request_rng env body"
  obtain N where N: "eff_iterations body = Fin (real N)" "1000 \<le> N" "N \<le> 300000"
    using eff_iterations_nat by blast
  then have N0: "N \<noteq> 0" by simp
  have main: "\<exists>N ss g' p.
           eff_iterations body = Fin (real N) \<and> 1000 \<le> N \<and> N \<le> 300000
         \<and> run_scores N ?en ?g = Some (ss, g')
         \<and> length ss = N
         \<and> p = real (length (filter (\<lambda>s. js_gt s (eff_threshold body)) ss)) / real N
         \<and> probabilitySuccess r = Fin p \<and> 0 \<le> p \<and> p \<le> 1
         \<and> r_label r = (if p < 0.33 then LOW else if p < 0.66 then MEDIUM else HIGH)"
    if r: "POST env body = Some r" for r
  proof -
    from r obtain ss g' where ss: "run_scores N ?en ?g = Some (ss, g')"
      unfolding POST_run_scores [OF N(1) N0] by auto
    have len: "length ss = N" using ss by (rule run_scores_length)
    define k where "k = length (filter (\<lambda>s. js_gt s (eff_threshold body)) ss)"
    have "k \<le> N" unfolding k_def using len count_le_length [of _ ss] by metis
    then have p: "0 \<le> real k / real N" "real k / real N \<le> 1"
      using N0 by simp_all
    have "probabilitySuccess r = Fin (real k / real N)"
        "r_label r = label_of (Fin (real k / real N))"
      using r unfolding POST_run_scores [OF N(1) N0] k_def by (auto simp: ss Let_def)
    with N ss len p show ?thesis
      unfolding label_of_Fin k_def by blast
  qed
  have b: "label_of (Fin 0.33) = MEDIUM" "label_of (Fin 0.66) = HIGH"
    by (simp_all add: label_of_def)
  have "\<exists>r. POST env body = Some r" if "fits ?g (2 * length ?en * 300000)"
    using POST_returns [OF that] by blast
  with main b show ?thesis by blast
qed

theorem probability_and_label_witness:
  "POST half_source sure_request = Some sure_response
   \<and> probabilitySuccess sure_response = Fin 1 \<and> r_label sure_response = HIGH
   \<and> (\<exists>N ss g' p. eff_iterations sure_request = Fin (real N)
        \<and> run_scores N (filter enabled (assumptions sure_request))
             (request_rng half_source sure_request) = Some (ss, g')
        \<and> p = real (length (filter (\<lambda>s. js_gt s (eff_threshold sure_request)) ss)) / real N
        \<and> probabilitySuccess sure_response = Fin p)"
proof -
  from probability_and_label [of half_source sure_request] POST_sure_request
  have "\<exists>N ss g' p. eff_iterations sure_request = Fin (real N)
        \<and> run_scores N (filter enabled (assumptions sure_request))
             (request_rng half_source sure_request) = Some (ss, g')
        \<and> p = real (length (filter (\<lambda>s. js_gt s (eff_threshold sure_request)) ss)) / real N
        \<and> probabilitySuccess sure_response = Fin p"
    by blast
  with POST_sure_request show ?thesis by (simp add: sure_response_def)
qed

text \<open>
  Claim C3. Two requests with the same numeric seed, the same assumptions, the same
  iteration count and the same threshold get the same response, and so the same
  \<open>probabilitySuccess\<close>, whatever the system's random source gives during either run:
  the seeded generator is a function of the seed and of the number of calls made. With at
  most \<open>10^9\<close> enabled assumptions the seeded run is shown to return.
\<close>

theorem seeded_runs_identical:
  assumes "seed b1 = Some s" "seed b2 = Some s"
    and "assumptions b1 = assumptions b2"
    and "iterations b1 = iterations b2"
    and "threshold b1 = threshold b2"
  shows "request_rng env1 b1 = mulberry32 s \<and> request_rng env2 b2 = mulberry32 s
       \<and> POST env1 b1 = POST env2 b2
       \<and> map_option probabilitySuccess (POST env1 b1) = map_option probabilitySuccess (POST env2 b2)
       \<and> (length (filter enabled (assumptions b1)) \<le> 1000000000 \<longrightarrow>
            (\<exists>r. POST env1 b1 = Some r \<and> POST env2 b2 = Some r))"
proof -
  have g: "request_rng env1 b1 = mulberry32 s" "request_rng env2 b2 = mulberry32 s"
    using assms(1,2) by (simp_all add: request_rng_def)
  have eq: "POST env1 b1 = POST env2 b2"
    using assms by (simp add: POST_def eff_iterations_def eff_threshold_def)
  have "\<exists>r. POST env1 b1 = Some r" if "length (filter enabled (assumptions b1)) \<le> 1000000000"
  proof -
    have "fits (request_rng env1 b1) (2 * length (filter enabled (assumptions b1)) * 300000)"
      using seeded_fits [OF that] by (simp add: request_rng_def assms(1))
    from POST_returns [OF this] show ?thesis by blast
  qed
  with eq g show ?thesis by auto
qed

theorem seeded_runs_identical_witness:
  "seed seeded_request = Some (Fin 42)
   \<and> length (filter enabled (assumptions seeded_request)) \<le> 1000000000
   \<and> POST half_source seeded_request = Some sure_response
   \<and> POST zero_source seeded_request = Some sure_response"
proof -
  have s: "seed seeded_request = Some (Fin 42)"
    by (simp add: seeded_request_def)
  have l: "length (filter enabled (assumptions seeded_request)) \<le> 1000000000"
    by (simp add: seeded_request_def sure_request_def)
  from seeded_runs_identical [OF s s refl refl refl, of half_source zero_source]
  have "POST half_source seeded_request = POST zero_source seeded_request" by blast
  with s l POST_seeded_request [of half_source] show ?thesis by simp
qed

text \<open>
  Claim C8. The route has no validation branch: whatever the numeric fields hold, each is
  clamped into its range, a value inside the range being kept, a value outside going to
  the nearer bound and NaN to the lower bound. The iteration count is the floor of the
  field clamped into \<open>[1000, 300000]\<close>, a whole number; the threshold is clamped into
  \<open>[-1000, 1000]\<close>, an assumption's mean into \<open>[-10^6, 10^6]\<close> and its standard
  deviation and weight into \<open>[0, 10^6]\<close>; the loop over the assumptions computes with the
  clamped values; and with a generator that keeps giving usable draws the route answers
  with the clamped iteration count and threshold.
\<close>

theorem numeric_fields_clamped:
  "eff_iterations body = clamped (js_floor (nullish (iterations body) (Fin 20000))) 1000 300000
   \<and> eff_threshold body = clamped (nullish (threshold body) (Fin 0)) (- 1000) 1000
   \<and> eff_mean a = clamped (nullish (mean a) (Fin 0)) (- 1000000) 1000000
   \<and> eff_std a = clamped (nullish (std a) (Fin 0)) 0 1000000
   \<and> eff_weight a = clamped (nullish (weight a) (Fin 1)) 0 1000000
   \<and> trial_score (a # en) score g =
       Option.bind (randn g) (\<lambda>(z, g'). trial_score en (js_add score (contribution a z)) g')
   \<and> (\<exists>n::nat. eff_iterations body = Fin (real n) \<and> 1000 \<le> n \<and> n \<le> 300000)
   \<and> (\<exists>t. eff_threshold body = Fin t \<and> - 1000 \<le> t \<and> t \<le> 1000)
   \<and> (\<exists>m. eff_mean a = Fin m \<and> - 1000000 \<le> m \<and> m \<le> 1000000)
   \<and> (\<exists>d. eff_std a = Fin d \<and> 0 \<le> d \<and> d \<le> 1000000)
   \<and> (\<exists>w. eff_weight a = Fin w \<and> 0 \<le> w \<and> w \<le> 1000000)
   \<and> eff_iterations (body\<lparr>iterations := Some NaN\<rparr>) = Fin 1000
   \<and> eff_threshold (body\<lparr>threshold := Some NaN\<rparr>) = Fin (- 1000)
   \<and> eff_mean (a\<lparr>mean := Some NaN\<rparr>) = Fin (- 1000000)
   \<and> eff_std (a\<lparr>std := Some NaN\<rparr>) = Fin 0
   \<and> eff_weight (a\<lparr>weight := Some NaN\<rparr>) = Fin 0
   \<and> (fits (request_rng env body) (2 * length (filter enabled (assumptions body)) * 300000) \<longrightarrow>
        (\<exists>r. POST env body = Some r
            \<and> r_iterations r
                = clamped (js_floor (nullish (iterations body) (Fin 20000))) 1000 300000
            \<and> summary_threshold r = clamped (nullish (threshold body) (Fin 0)) (- 1000) 1000))"
proof -
  have 0: "trial_score (a # en) score g =
       Option.bind (randn g) (\<lambda>(z, g'). trial_score en (js_add score (contribution a z)) g')"
    by (simp add: contribution_code Let_def)
  have 1: "\<exists>n::nat. eff_iterations body = Fin (real n) \<and> 1000 \<le> n \<and> n \<le> 300000"
    by (rule eff_iterations_nat)
  have 2: "\<exists>t. eff_threshold body = Fin t \<and> - 1000 \<le> t \<and> t \<le> 1000"
    unfolding eff_threshold_def by (rule clamp_range) simp
  have 3: "\<exists>m. eff_mean a = Fin m \<and> - 1000000 \<le> m \<and> m \<le> 1000000"
    unfolding eff_mean_def by (rule clamp_range) simp
  have 4: "\<exists>d. eff_std a = Fin d \<and> 0 \<le> d \<and> d \<le> 1000000"
    unfolding eff_std_def by (rule clamp_range) simp
  have 5: "\<exists>w. eff_weight a = Fin w \<and> 0 \<le> w \<and> w \<le> 1000000"
    unfolding eff_weight_def by (rule clamp_range) simp
  have 6: "eff_iterations (body\<lparr>iterations := Some NaN\<rparr>) = Fin 1000"
    "eff_threshold (body\<lparr>threshold := Some NaN\<rparr>) = Fin (- 1000)"
    "eff_mean (a\<lparr>mean := Some NaN\<rparr>) = Fin (- 1000000)"
    "eff_std (a\<lparr>std := Some NaN\<rparr>) = Fin 0"
    "eff_weight (a\<lparr>weight := Some NaN\<rparr>) = Fin 0"
    by (simp_all add: eff_iterations_def eff_threshold_def eff_mean_def eff_std_def
          eff_weight_def clamp_NaN)
  have 7: "\<exists>r. POST env body = Some r
            \<and> r_iterations r
                = clamped (js_floor (nullish (iterations body) (Fin 20000))) 1000 300000
            \<and> summary_threshold r = clamped (nullish (threshold body) (Fin 0)) (- 1000) 1000"
    if "fits (request_rng env body) (2 * length (filter enabled (assumptions body)) * 300000)"
    using POST_returns [OF that] unfolding eff_iterations_clamped eff_threshold_clamped .
  show ?thesis
    using eff_iterations_clamped [of body] eff_threshold_clamped [of body]
      eff_mean_clamped [of a] eff_std_clamped [of a] eff_weight_clamped [of a]
      0 1 2 3 4 5 6 7
    by (intro conjI impI)
qed

theorem numeric_fields_clamped_witness:
  "fits (request_rng half_source odd_request)
     (2 * length (filter enabled (assumptions odd_request)) * 300000)
   \<and> (\<exists>r. POST half_source odd_request = Some r \<and> r_iterations r = Fin 1000
          \<and> summary_threshold r = Fin 1000)
   \<and> eff_mean odd_assumption = Fin (- 1000000) \<and> eff_std odd_assumption = Fin 0
   \<and> eff_weight odd_assumption = Fin 1000000
   \<and> eff_mean wild_assumption = Fin 1000000 \<and> eff_std wild_assumption = Fin 0
   \<and> eff_weight wild_assumption = Fin 7
   \<and> eff_iterations (odd_request\<lparr>iterations := Some (Fin 2500.7)\<rparr>) = Fin 2500
   \<and> eff_threshold (odd_request\<lparr>threshold := Some (Fin (- 12.5))\<rparr>) = Fin (- 12.5)"
proof -
  have f: "fits (request_rng half_source odd_request)
     (2 * length (filter enabled (assumptions odd_request)) * 300000)"
    by (simp add: request_rng_def odd_request_def half_source_def)
  have e: "clamped (js_floor (nullish (iterations odd_request) (Fin 20000))) 1000 300000 = Fin 1000"
    "clamped (nullish (threshold odd_request) (Fin 0)) (- 1000) 1000 = Fin 1000"
    by (simp_all add: odd_request_def)
  note t = numeric_fields_clamped [of odd_request odd_assumption]
  have a: "eff_mean odd_assumption = Fin (- 1000000)" "eff_std odd_assumption = Fin 0"
    "eff_weight odd_assumption = Fin 1000000"
    using t by (simp_all add: odd_assumption_def)
  note w = numeric_fields_clamped [of "odd_request\<lparr>iterations := Some (Fin 2500.7)\<rparr>" wild_assumption]
  have b: "eff_mean wild_assumption = Fin 1000000" "eff_std wild_assumption = Fin 0"
    "eff_weight wild_assumption = Fin 7"
    using w by (simp_all add: wild_assumption_def)
  have "\<lfloor>2500.7 :: real\<rfloor> = 2500" by linarith
  then have i: "eff_iterations (odd_request\<lparr>iterations := Some (Fin 2500.7)\<rparr>) = Fin 2500"
    using w by simp
  note v = numeric_fields_clamped [of "odd_request\<lparr>threshold := Some (Fin (- 12.5))\<rparr>" wild_assumption]
  have h: "eff_threshold (odd_request\<lparr>threshold := Some (Fin (- 12.5))\<rparr>) = Fin (- 12.5)"
    using v by simp
  from numeric_fields_clamped [of odd_request odd_assumption "[]" "Fin 0" "System half_source"
      half_source] f
  have "\<exists>r. POST half_source odd_request = Some r
            \<and> r_iterations r
                = clamped (js_floor (nullish (iterations odd_request) (Fin 20000))) 1000 300000
            \<and> summary_threshold r
                = clamped (nullish (threshold odd_request) (Fin 0)) (- 1000) 1000"
    by blast
  then have "\<exists>r. POST half_source odd_request = Some r \<and> r_iterations r = Fin 1000
          \<and> summary_threshold r = Fin 1000"
    unfolding e .
  with f a b i h show ?thesis by (intro conjI)
qed

section \<open>Facts about the MCP function\<close>

subsection \<open>The random source\<close>

lemma advance_advance: "advance j (advance k src) = advance (k + j) src"
  by (simp add: advance_def ac_simps)

lemma advance_0: "advance 0 src = src"
  by (simp add: advance_def)

lemma sample_variable_source: "snd (sample_variable c src) = advance 2 src"
  by (simp add: sample_variable_def Math_random_def advance_def Let_def)

lemma draw_samples_source:
  "snd (draw_samples vs samples src) = advance (2 * length vs) src"
proof (induction vs arbitrary: samples src)
  case Nil
  show ?case by (simp add: advance_0)
next
  case (Cons e vs)
  obtain name c where e: "e = (name, c)" by (cases e)
  obtain x s1 where sv: "sample_variable c src = (x, s1)" by (cases "sample_variable c src")
  then have "s1 = advance 2 src" using sample_variable_source [of c src] by simp
  then show ?case by (simp add: e sv Cons.IH advance_advance)
qed

lemma simulate_Suc:
  "simulate (Suc n) vs src =
     (hiring_outcome (fst (draw_samples vs Map.empty src))
        # fst (simulate n vs (advance (2 * length vs) src)),
      snd (simulate n vs (advance (2 * length vs) src)))"
  using draw_samples_source [of vs Map.empty src]
  by (simp add: case_prod_beta)

lemma simulate_source: "snd (simulate n vs src) = advance (2 * length vs * n) src"
proof (induction n arbitrary: src)
  case 0
  show ?case by (simp add: advance_0)
next
  case (Suc n)
  show ?case
    unfolding simulate_Suc by (simp add: Suc.IH advance_advance algebra_simps)
qed

lemma simulate_length: "length (fst (simulate n vs src)) = n"
proof (induction n arbitrary: src)
  case 0
  show ?case by simp
next
  case (Suc n)
  show ?case unfolding simulate_Suc by (simp add: Suc.IH)
qed

subsection \<open>Sorting\<close>

lemma mset_insert_sorted: "mset (insert_sorted cmp x ys) = add_mset x (mset ys)"
  by (induction ys) simp_all

lemma mset_array_sort: "mset (array_sort cmp xs) = mset xs"
  by (induction xs) (simp_all add: array_sort_def mset_insert_sorted)

lemma length_array_sort: "length (array_sort cmp xs) = length xs"
  using mset_array_sort [of cmp xs] by (metis size_mset)

lemma set_array_sort: "set (array_sort cmp xs) = set xs"
  using mset_array_sort [of cmp xs] by (metis set_mset_mset)

lemma js_lt_rank: "\<not> isNaN a \<Longrightarrow> \<not> isNaN b \<Longrightarrow> js_lt a b \<longleftrightarrow> rank a < rank b"
  by (cases a; cases b) (simp_all add: less_prod_def)

lemma js_le_rank: "\<not> isNaN a \<Longrightarrow> \<not> isNaN b \<Longrightarrow> js_le a b \<longleftrightarrow> rank a \<le> rank b"
  by (cases a; cases b) (auto simp: js_le_def less_eq_prod_def)

lemma js_sub_negative:
  "\<not> isNaN a \<Longrightarrow> \<not> isNaN b \<Longrightarrow> js_lt (js_sub a b) (Fin 0) \<longleftrightarrow> js_lt a b"
  using overflow_pos by (cases a; cases b) (auto simp: js_sub_def js_result_def)

lemma insert_sorted_insort_key:
  assumes "\<not> isNaN (f x)" "\<forall>y\<in>set ys. \<not> isNaN (f y)"
  shows "insert_sorted (\<lambda>a b. js_sub (f a) (f b)) x ys = insort_key (\<lambda>a. rank (f a)) x ys"
  using assms(2)
proof (induction ys)
  case Nil
  show ?case by simp
next
  case (Cons y ys)
  then have y: "\<not> isNaN (f y)" by simp
  have "js_lt (js_sub (f y) (f x)) (Fin 0) \<longleftrightarrow> \<not> rank (f x) \<le> rank (f y)"
    using js_sub_negative [OF y assms(1)] js_lt_rank [OF y assms(1)] by (simp add: not_le)
  with Cons show ?case by simp
qed

lemma array_sort_sort_key:
  assumes "\<forall>y\<in>set xs. \<not> isNaN (f y)"
  shows "array_sort (\<lambda>a b. js_sub (f a) (f b)) xs = sort_key (\<lambda>a. rank (f a)) xs"
  using assms
proof (induction xs)
  case Nil
  show ?case by (simp add: array_sort_def)
next
  case (Cons x xs)
  then have IH: "array_sort (\<lambda>a b. js_sub (f a) (f b)) xs = sort_key (\<lambda>a. rank (f a)) xs" by simp
  have "\<forall>y\<in>set (sort_key (\<lambda>a. rank (f a)) xs). \<not> isNaN (f y)" using Cons.prems by simp
  with Cons.prems IH insert_sorted_insort_key [of f x "sort_key (\<lambda>a. rank (f a)) xs"]
  show ?case by (simp add: array_sort_def)
qed

lemma array_sort_sorted:
  assumes "\<forall>y\<in>set xs. \<not> isNaN (f y)"
  shows "sorted_wrt (\<lambda>a b. js_le (f a) (f b)) (array_sort (\<lambda>a b. js_sub (f a) (f b)) xs)"
proof -
  let ?ys = "sort_key (\<lambda>a. rank (f a)) xs"
  have "sorted (map (\<lambda>a. rank (f a)) ?ys)" by (rule sorted_sort_key)
  then have "sorted_wrt (\<lambda>a b. rank (f a) \<le> rank (f b)) ?ys"
    by (simp add: sorted_map)
  moreover have "\<forall>y\<in>set ?ys. \<not> isNaN (f y)" using assms by simp
  ultimately have "sorted_wrt (\<lambda>a b. js_le (f a) (f b)) ?ys"
    by (auto intro: sorted_wrt_mono_rel [rotated] simp: js_le_rank)
  then show ?thesis by (simp add: array_sort_sort_key [OF assms])
qed

lemma array_sort_stable:
  assumes "\<forall>y\<in>set xs. \<not> isNaN (f y)"
  shows "filter (\<lambda>y. f y = v) (array_sort (\<lambda>a b. js_sub (f a) (f b)) xs) = filter (\<lambda>y. f y = v) xs"
proof (cases "isNaN v")
  case True
  then have "filter (\<lambda>y. f y = v) ys = []" if "set ys = set xs" for ys
    using assms that by (auto simp: filter_empty_conv)
  then show ?thesis by (simp add: set_array_sort)
next
  case False
  have "(f y = v) = ((\<lambda>a. rank (f a)) y = rank v)" if "y \<in> set xs" for y
  proof -
    have "\<not> isNaN (f y)" using assms that by simp
    with False show ?thesis by (cases "f y"; cases v) simp_all
  qed
  then have e: "filter (\<lambda>y. f y = v) ys = filter (\<lambda>y. (\<lambda>a. rank (f a)) y = rank v) ys"
    if "set ys = set xs" for ys
    using that by (intro filter_cong) auto
  show ?thesis
    unfolding array_sort_sort_key [OF assms]
    using e [of "sort_key (\<lambda>a. rank (f a)) xs"] e [of xs] sort_key_stable [of "\<lambda>a. rank (f a)" "rank v" xs]
    by simp
qed

lemma insert_sorted_replicate:
  "\<not> js_lt (cmp x x) (Fin 0) \<Longrightarrow> insert_sorted cmp x (replicate n x) = x # replicate n x"
  by (cases n) simp_all

lemma array_sort_replicate:
  "\<not> js_lt (cmp x x) (Fin 0) \<Longrightarrow> array_sort cmp (replicate n x) = replicate n x"
  by (induction n) (simp_all add: array_sort_def insert_sorted_replicate)

lemma js_sub_self_not_negative: "\<not> js_lt (js_sub x x) (Fin 0)"
  by (cases x) (simp_all add: js_sub_def js_result_0)

subsection \<open>What runSimulation returns\<close>

lemma floor_half: "nat \<lfloor>real n / 2\<rfloor> = n div 2"
proof -
  have "\<lfloor>real n / 2\<rfloor> = \<lfloor>real n / real 2\<rfloor>" by simp
  also have "\<dots> = int (n div 2)" by (rule floor_divide_of_nat_eq)
  finally show ?thesis by simp
qed

lemma floor_tenth': "nat \<lfloor>real n / 10\<rfloor> = n div 10"
proof -
  have "\<lfloor>real n / 10\<rfloor> = \<lfloor>real n / real 10\<rfloor>" by simp
  also have "\<dots> = int (n div 10)" by (rule floor_divide_of_nat_eq)
  finally show ?thesis by simp
qed

lemma floor_tenth: "nat \<lfloor>real n * 0.1\<rfloor> = n div 10"
  using floor_tenth' [of n] by simp

lemma floor_nine_tenths': "nat \<lfloor>real n * 9 / 10\<rfloor> = 9 * n div 10"
proof -
  have "real n * 9 / 10 = real (9 * n) / real 10" by simp
  then have "\<lfloor>real n * 9 / 10\<rfloor> = \<lfloor>real (9 * n) / real 10\<rfloor>" by (simp only:)
  also have "\<dots> = int (9 * n div 10)" by (rule floor_divide_of_nat_eq)
  finally show ?thesis by simp
qed

lemma floor_nine_tenths: "nat \<lfloor>real n * 0.9\<rfloor> = 9 * n div 10"
  using floor_nine_tenths' [of n] by simp

lemma in_range_js_result: "in_range (js_result x)"
  by (auto simp: js_result_def)

lemma in_range_js_add: "in_range (js_add a b)"
  by (cases a; cases b) (simp_all add: in_range_js_result)

lemma in_range_hiring_outcome: "in_range (hiring_outcome samples)"
  by (simp add: hiring_outcome_def Let_def js_sub_def in_range_js_add)

lemma in_range_simulate: "x \<in> set (fst (simulate n vs src)) \<Longrightarrow> in_range x"
proof (induction n arbitrary: src)
  case 0
  then show ?case by simp
next
  case (Suc n)
  then show ?case
    unfolding simulate_Suc by (auto simp: in_range_hiring_outcome)
qed

lemma js_add_zero_left: "in_range x \<Longrightarrow> js_add (Fin 0) x = x"
  by (cases x) (simp_all add: js_result_Fin)

lemma foldl_js_add_js_sum: "in_range x \<Longrightarrow> foldl js_add x xs = js_sum (x # xs)"
  by (simp add: js_sum_def js_add_zero_left)

lemma runSimulation_result:
  assumes "0 < n"
  shows "runSimulation vs n src =
     Inr (result_of (array_sort (\<lambda>a b. js_sub a b) (fst (simulate n vs src))),
          advance (2 * length vs * n) src)"
proof -
  let ?os = "array_sort (\<lambda>a b. js_sub a b) (fst (simulate n vs src))"
  have len: "length ?os = n" by (simp add: length_array_sort simulate_length)
  with assms obtain x xs where os: "?os = x # xs" by (cases ?os) auto
  have i: "n div 2 < n" "n div 10 < n" "9 * n div 10 < n" using assms by auto
  have "x \<in> set ?os" unfolding os by simp
  then have "x \<in> set (fst (simulate n vs src))" by (simp only: set_array_sort)
  then have xr: "in_range x" by (rule in_range_simulate)
  have "length (filter (\<lambda>x. js_gt x (Fin 0)) ?os) \<le> n"
    using len length_filter_le [of "\<lambda>x. js_gt x (Fin 0)" ?os] by simp
  then have "js_div (Fin (real (length (filter (\<lambda>x. js_gt x (Fin 0)) ?os)))) (Fin (real n))
      = Fin (real (length (filter (\<lambda>x. js_gt x (Fin 0)) ?os)) / real n)"
    using assms by (intro js_div_nat) simp_all
  then have pp: "js_result (real (length (filter (\<lambda>x. js_gt x (Fin 0)) ?os)) / real n)
      = Fin (real (length (filter (\<lambda>x. js_gt x (Fin 0)) ?os)) / real n)"
    using assms by simp
  have "runSimulation vs n src =
      Inr (\<lparr>mean_of = js_div (foldl js_add x xs) (Fin (real n)),
            median = element_at ?os (nat \<lfloor>real n / 2\<rfloor>),
            p10 = element_at ?os (nat \<lfloor>real n * 0.1\<rfloor>),
            p90 = element_at ?os (nat \<lfloor>real n * 0.9\<rfloor>),
            prob_positive = js_div (Fin (real (length (filter (\<lambda>x. js_gt x (Fin 0)) ?os))))
                              (Fin (real n))\<rparr>,
           snd (simulate n vs src))"
    unfolding runSimulation_def by (simp add: case_prod_beta Let_def os)
  also have "foldl js_add x xs = js_sum ?os" unfolding os using xr by (rule foldl_js_add_js_sum)
  finally show ?thesis
    using assms i
    by (simp add: result_of_def len element_at_def floor_half floor_tenth' floor_nine_tenths'
          simulate_source pp)
qed

subsection \<open>Variable sets without the model's inputs\<close>

lemma js_sub_NaN_right: "js_sub x NaN = NaN"
  by (cases x) (simp_all add: js_sub_def)

lemma draw_samples_other_key:
  "k \<notin> fst ` set vs \<Longrightarrow> fst (draw_samples vs samples src) k = samples k"
proof (induction vs arbitrary: samples src)
  case Nil
  show ?case by simp
next
  case (Cons e vs)
  obtain name c where e: "e = (name, c)" by (cases e)
  with Cons.prems have k: "k \<noteq> name" "k \<notin> fst ` set vs" by auto
  show ?case
    using Cons.IH [OF k(2)] k(1) by (simp add: e case_prod_beta)
qed

lemma hiring_outcome_no_salary: "samples ''salary'' = None \<Longrightarrow> hiring_outcome samples = NaN"
  by (simp add: hiring_outcome_def property_def js_sub_NaN_right Let_def)

lemma simulate_no_salary:
  assumes "''salary'' \<notin> fst ` set vs"
  shows "fst (simulate n vs src) = replicate n NaN"
proof (induction n arbitrary: src)
  case 0
  show ?case by simp
next
  case (Suc n)
  have "fst (draw_samples vs Map.empty src) ''salary'' = None"
    using draw_samples_other_key [OF assms] by simp
  then show ?case
    unfolding simulate_Suc by (simp add: hiring_outcome_no_salary Suc.IH)
qed

lemma js_sum_replicate_NaN: "0 < n \<Longrightarrow> js_sum (replicate n NaN) = NaN"
proof -
  have "foldl js_add NaN (replicate m NaN) = NaN" for m by (induction m) simp_all
  then show "0 < n \<Longrightarrow> js_sum (replicate n NaN) = NaN"
    by (cases n) (simp_all add: js_sum_def)
qed

lemma result_of_replicate_NaN:
  "0 < n \<Longrightarrow> result_of (replicate n NaN) =
     \<lparr>mean_of = NaN, median = NaN, p10 = NaN, p90 = NaN, prob_positive = Fin 0\<rparr>"
  by (simp add: result_of_def js_sum_replicate_NaN js_gt_def)

lemma runSimulation_no_salary:
  assumes "''salary'' \<notin> fst ` set vs" "0 < n"
  shows "runSimulation vs n src =
     Inr (\<lparr>mean_of = NaN, median = NaN, p10 = NaN, p90 = NaN, prob_positive = Fin 0\<rparr>,
          advance (2 * length vs * n) src)"
  by (simp add: runSimulation_result [OF assms(2)] simulate_no_salary [OF assms(1)]
        array_sort_replicate js_sub_self_not_negative result_of_replicate_NaN [OF assms(2)])

subsection \<open>What sensitivity returns\<close>

lemma length_with_base: "length (with_base vs name c b) = length vs"
  by (simp add: with_base_def)

lemma sensitivity_row_result:
  "sensitivity_row vs b (name, c) src =
     Inr (\<lparr>variable = name, row_base = base c, row_min = minv c, row_max = maxv c,
           outcome_at_low =
             mean_of (result_of (array_sort (\<lambda>a b. js_sub a b)
               (fst (simulate 5000 (with_base vs name c (minv c)) src)))),
           outcome_at_high =
             mean_of (result_of (array_sort (\<lambda>a b. js_sub a b)
               (fst (simulate 5000 (with_base vs name c (maxv c))
                  (advance (10000 * length vs) src))))),
           impact_percent =
             impact
               (result_of (array_sort (\<lambda>a b. js_sub a b)
                  (fst (simulate 5000 (with_base vs name c (minv c)) src))))
               (result_of (array_sort (\<lambda>a b. js_sub a b)
                  (fst (simulate 5000 (with_base vs name c (maxv c))
                     (advance (10000 * length vs) src)))))
               b\<rparr>,
          advance (10000 * length vs) (advance (10000 * length vs) src))"
  unfolding sensitivity_row_def
  by (simp add: runSimulation_result length_with_base)

lemma sensitivity_row_Inr:
  "\<exists>r src'. sensitivity_row vs b e src = Inr (r, src') \<and> variable r = fst e
     \<and> row_min r = minv (snd e) \<and> row_max r = maxv (snd e) \<and> row_base r = base (snd e)
     \<and> row_ok b r"
proof -
  obtain name c where e: "e = (name, c)" by (cases e)
  show ?thesis
    unfolding e sensitivity_row_result by (simp add: row_ok_def impact_def)
qed

lemma map_rows_Inr:
  "\<exists>rows src'. map_rows vs b es src = Inr (rows, src') \<and> map variable rows = map fst es
     \<and> map row_min rows = map (minv \<circ> snd) es \<and> map row_max rows = map (maxv \<circ> snd) es
     \<and> (\<forall>r\<in>set rows. row_ok b r)"
proof (induction es arbitrary: src)
  case Nil
  show ?case by simp
next
  case (Cons e es)
  from sensitivity_row_Inr [of vs b e src] obtain r s1 where
    r: "sensitivity_row vs b e src = Inr (r, s1)" "variable r = fst e"
       "row_min r = minv (snd e)" "row_max r = maxv (snd e)" "row_ok b r"
    by blast
  from Cons.IH [of s1] obtain rows s2 where
    rows: "map_rows vs b es s1 = Inr (rows, s2)" "map variable rows = map fst es"
      "map row_min rows = map (minv \<circ> snd) es" "map row_max rows = map (maxv \<circ> snd) es"
      "\<forall>r\<in>set rows. row_ok b r"
    by blast
  show ?case
    using r(2-) rows(2-) by (simp add: r(1) rows(1))
qed

lemma sensitivity_Inr:
  "\<exists>rows0 src'. map_rows vs b vs src = Inr (rows0, src')
     \<and> sensitivity vs b src =
         Inr (array_sort (\<lambda>r r'. js_sub (impact_percent r') (impact_percent r)) rows0, src')
     \<and> map variable rows0 = map fst vs \<and> (\<forall>r\<in>set rows0. row_ok b r)"
proof -
  from map_rows_Inr [of vs b vs src] obtain rows0 src' where
    "map_rows vs b vs src = Inr (rows0, src')" "map variable rows0 = map fst vs"
    "\<forall>r\<in>set rows0. row_ok b r"
    by blast
  then show ?thesis by (simp add: sensitivity_def)
qed

subsection \<open>Variables without spread\<close>

lemma js_clamp_pinned: "\<not> isNaN y \<Longrightarrow> js_max (Fin m) (js_min (Fin m) y) = Fin m"
  by (cases y) (auto simp: js_max_def js_min_def)

lemma isNaN_js_result: "\<not> isNaN (js_result x)"
  by (simp add: js_result_def)

lemma sample_variable_pinned:
  assumes "pinned c" "least_positive \<le> src 0" "src 0 \<le> 1" "0 \<le> src (Suc 0)" "src (Suc 0) \<le> 1"
  shows "fst (sample_variable c src) = minv c"
proof -
  from assms(1) obtain m b where c: "minv c = Fin m" "maxv c = Fin m" "base c = Fin b"
    unfolding pinned_def by (cases "minv c"; cases "base c") auto
  have z: "box_muller (Fin (src 0)) (Fin (src (Suc 0)))
      = Fin (sqrt (- 2 * ln (src 0)) * cos (2 * pi * src (Suc 0)))"
    using assms(2-) by (rule box_muller_Fin)
  have std: "js_div (js_sub (Fin m) (Fin m)) (Fin 4) = Fin 0"
    by (simp add: js_sub_def js_result_0)
  show ?thesis
    by (simp add: sample_variable_def Math_random_def c Let_def z std js_result_0
          js_clamp_pinned isNaN_js_result)
qed

lemma unit_open_advance: "unit_open src \<Longrightarrow> unit_open (advance k src)"
  by (simp add: unit_open_def advance_def)

lemma draw_samples_Cons:
  "draw_samples ((name, c) # vs) samples src =
     draw_samples vs (samples(name \<mapsto> fst (sample_variable c src))) (advance 2 src)"
  using sample_variable_source [of c src] by (simp add: case_prod_beta)

lemma draw_samples_pinned:
  assumes "\<forall>e\<in>set vs. pinned (snd e)" "unit_open src"
  shows "fst (draw_samples vs samples src) = at_min vs samples"
  using assms
proof (induction vs arbitrary: samples src)
  case Nil
  show ?case by simp
next
  case (Cons e vs)
  obtain name c where e: "e = (name, c)" by (cases e)
  have p: "pinned c" using Cons.prems(1) e by simp
  have u: "least_positive \<le> src 0" "src 0 \<le> 1" "0 \<le> src (Suc 0)" "src (Suc 0) \<le> 1"
  proof -
    have b: "least_positive \<le> src n" "src n < 1" for n
      using Cons.prems(2) unfolding unit_open_def by blast+
    show "least_positive \<le> src 0" "src 0 \<le> 1" "src (Suc 0) \<le> 1"
      using b [of 0] b [of "Suc 0"] by simp_all
    show "0 \<le> src (Suc 0)" using b(1) [of "Suc 0"] least_positive_pos by linarith
  qed
  have "fst (draw_samples vs (samples(name \<mapsto> minv c)) (advance 2 src))
      = at_min vs (samples(name \<mapsto> minv c))"
    using Cons.prems by (intro Cons.IH unit_open_advance) simp_all
  then show ?case
    unfolding e draw_samples_Cons sample_variable_pinned [of c src, OF p u] by simp
qed

lemma simulate_constant:
  assumes "\<forall>i<n. hiring_outcome (fst (draw_samples vs Map.empty (advance (2 * length vs * i) src))) = v"
  shows "fst (simulate n vs src) = replicate n v"
  using assms
proof (induction n arbitrary: src)
  case 0
  show ?case by simp
next
  case (Suc n)
  have h: "hiring_outcome (fst (draw_samples vs Map.empty src)) = v"
    using Suc.prems [rule_format, of 0] by (simp add: advance_0)
  have "\<forall>i<n. hiring_outcome (fst (draw_samples vs Map.empty
          (advance (2 * length vs * i) (advance (2 * length vs) src)))) = v"
  proof (intro allI impI)
    fix i assume "i < n"
    then have "Suc i < Suc n" by simp
    from Suc.prems [rule_format, OF this] show
      "hiring_outcome (fst (draw_samples vs Map.empty
          (advance (2 * length vs * i) (advance (2 * length vs) src)))) = v"
      by (simp add: advance_advance algebra_simps)
  qed
  from Suc.IH [OF this] show ?case
    unfolding simulate_Suc by (simp add: h)
qed

lemma simulate_pinned:
  assumes "\<forall>e\<in>set vs. pinned (snd e)" "unit_open src"
  shows "fst (simulate n vs src) = replicate n (hiring_outcome (at_min vs Map.empty))"
  by (rule simulate_constant)
     (simp add: draw_samples_pinned [OF assms(1)] unit_open_advance [OF assms(2)])

lemma js_sum_replicate_Fin:
  assumes "real n * \<bar>r\<bar> < overflow"
  shows "js_sum (replicate n (Fin r)) = Fin (real n * r)"
proof -
  have "real (k + n) * \<bar>r\<bar> < overflow \<Longrightarrow>
      foldl js_add (Fin (real k * r)) (replicate n (Fin r)) = Fin (real (k + n) * r)" for k
  proof (induction n arbitrary: k)
    case 0
    show ?case by simp
  next
    case (Suc n)
    have "real (Suc k) * \<bar>r\<bar> \<le> real (k + Suc n) * \<bar>r\<bar>"
      by (intro mult_right_mono) simp_all
    with Suc.prems have "\<bar>real (Suc k) * r\<bar> < overflow" by (simp add: abs_mult)
    then have "js_result (real (Suc k) * r) = Fin (real (Suc k) * r)" by (rule js_result_Fin)
    moreover have "real k * r + r = real (Suc k) * r" by (simp add: algebra_simps)
    ultimately have 1: "js_add (Fin (real k * r)) (Fin r) = Fin (real (Suc k) * r)" by simp
    have "real (Suc k + n) * \<bar>r\<bar> < overflow" using Suc.prems by simp
    from Suc.IH [OF this] show ?case
      unfolding replicate_Suc foldl_Cons 1 by simp
  qed
  from this [of 0] assms show ?thesis by (simp add: js_sum_def)
qed

lemma level_mean_Fin:
  assumes "0 < n" "real n * \<bar>r\<bar> < overflow"
  shows "level_mean n (Fin r) = Fin r"
proof -
  have "1 * \<bar>r\<bar> \<le> real n * \<bar>r\<bar>" using assms(1) by (intro mult_right_mono) simp_all
  with assms(2) have "\<bar>r\<bar> < overflow" by simp
  then have "js_result r = Fin r" by (rule js_result_Fin)
  then show ?thesis
    using assms(1) by (simp add: level_mean_def js_sum_replicate_Fin [OF assms(2)])
qed

lemma result_of_replicate:
  assumes "0 < n"
  shows "result_of (replicate n x) =
     \<lparr>mean_of = level_mean n x, median = x, p10 = x, p90 = x,
      prob_positive = Fin (if js_gt x (Fin 0) then 1 else 0)\<rparr>"
proof -
  have i: "n div 2 < n" "n div 10 < n" "9 * n div 10 < n" using assms by auto
  show ?thesis
    using assms i by (simp add: result_of_def level_mean_def)
qed

lemma result_of_replicate_Fin:
  assumes "0 < n" "real n * \<bar>r\<bar> < overflow"
  shows "result_of (replicate n (Fin r)) = flat_result r"
  by (simp add: result_of_replicate [OF assms(1)] level_mean_Fin [OF assms] flat_result_def
        js_gt_def)

lemma level_row_Fin: "level_row b (Fin r) e = flat_row b r e"
  by (simp add: level_row_def flat_row_def js_sub_def js_result_0)

lemma with_base_pinned:
  assumes "distinct (map fst vs)" "(name, c) \<in> set vs"
  shows "with_base vs name c b = map (\<lambda>(k, c'). (k, if k = name then c'\<lparr>base := b\<rparr> else c')) vs"
proof -
  have "c' = c" if "(name, c') \<in> set vs" for c'
    using assms that by (meson eq_key_imp_eq_value)
  then show ?thesis
    unfolding with_base_def by (intro map_cong) auto
qed

lemma at_min_map:
  "(\<forall>e\<in>set vs. minv (f e) = minv (snd e)) \<Longrightarrow>
   at_min (map (\<lambda>e. (fst e, f e)) vs) samples = at_min vs samples"
  by (induction vs arbitrary: samples) (auto simp: case_prod_beta)

lemma at_min_with_base:
  assumes "distinct (map fst vs)" "(name, c) \<in> set vs"
  shows "at_min (with_base vs name c b) samples = at_min vs samples"
proof -
  have "with_base vs name c b =
      map (\<lambda>e. (fst e, if fst e = name then (snd e)\<lparr>base := b\<rparr> else snd e)) vs"
    unfolding with_base_pinned [OF assms] by (simp add: case_prod_beta)
  then show ?thesis by (simp add: at_min_map)
qed

lemma pinned_with_base:
  assumes "\<forall>e\<in>set vs. pinned (snd e)" "pinned c" "is_fin b"
  shows "\<forall>e\<in>set (with_base vs name c b). pinned (snd e)"
  using assms by (auto simp: with_base_def pinned_def)

lemma runSimulation_pinned:
  assumes "\<forall>e\<in>set vs. pinned (snd e)" "unit_open src" "0 < n"
  shows "runSimulation vs n src =
     Inr (result_of (replicate n (hiring_outcome (at_min vs Map.empty))),
          advance (2 * length vs * n) src)"
  by (simp add: runSimulation_result [OF assms(3)] simulate_pinned [OF assms(1,2)]
        array_sort_replicate js_sub_self_not_negative)

lemma sensitivity_row_pinned:
  assumes "distinct (map fst vs)" "\<forall>e\<in>set vs. pinned (snd e)" "unit_open src"
    and "(name, c) \<in> set vs"
  shows "sensitivity_row vs b (name, c) src =
     Inr (level_row b (level_mean 5000 (hiring_outcome (at_min vs Map.empty))) (name, c),
          advance (10000 * length vs) (advance (10000 * length vs) src))"
proof -
  let ?x = "hiring_outcome (at_min vs Map.empty)"
  have pc: "pinned c" using assms(2,4) by auto
  then have f: "is_fin (minv c)" "is_fin (maxv c)" by (simp_all add: pinned_def)
  have lo: "fst (simulate 5000 (with_base vs name c (minv c)) src) = replicate 5000 ?x"
    using simulate_pinned [OF pinned_with_base [OF assms(2) pc f(1)] assms(3)]
    by (simp add: at_min_with_base [OF assms(1,4)])
  have hi: "fst (simulate 5000 (with_base vs name c (maxv c)) (advance (10000 * length vs) src))
      = replicate 5000 ?x"
    using simulate_pinned [OF pinned_with_base [OF assms(2) pc f(2)]
        unit_open_advance [OF assms(3)]]
    by (simp add: at_min_with_base [OF assms(1,4)])
  have r: "mean_of (result_of (replicate 5000 ?x)) = level_mean 5000 ?x"
    by (simp add: result_of_replicate)
  show ?thesis
    unfolding sensitivity_row_result lo hi
    by (simp add: array_sort_replicate js_sub_self_not_negative r impact_def level_row_def)
qed

lemma map_rows_pinned:
  assumes "distinct (map fst vs)" "\<forall>e\<in>set vs. pinned (snd e)" "unit_open src"
    and "set es \<subseteq> set vs"
  shows "\<exists>src'. map_rows vs b es src
           = Inr (map (level_row b (level_mean 5000 (hiring_outcome (at_min vs Map.empty)))) es, src')
         \<and> unit_open src'"
  using assms(3,4)
proof (induction es arbitrary: src)
  case Nil
  then show ?case by simp
next
  case (Cons e es)
  let ?m = "level_mean 5000 (hiring_outcome (at_min vs Map.empty))"
  obtain name c where e: "e = (name, c)" by (cases e)
  have m: "(name, c) \<in> set vs" using Cons.prems(2) e by simp
  let ?s1 = "advance (10000 * length vs) (advance (10000 * length vs) src)"
  have r: "sensitivity_row vs b e src = Inr (level_row b ?m e, ?s1)"
    unfolding e by (rule sensitivity_row_pinned [OF assms(1,2) Cons.prems(1) m])
  have "unit_open ?s1" by (intro unit_open_advance Cons.prems(1))
  from Cons.IH [OF this] Cons.prems(2) obtain s2 where
    "map_rows vs b es ?s1 = Inr (map (level_row b ?m) es, s2)" "unit_open s2" by auto
  then show ?case by (simp add: r)
qed

lemma array_sort_ties:
  assumes "\<forall>x\<in>set xs. \<forall>y\<in>set xs. \<not> js_lt (cmp y x) (Fin 0)"
  shows "array_sort cmp xs = xs"
  using assms
proof (induction xs)
  case Nil
  show ?case by (simp add: array_sort_def)
next
  case (Cons x xs)
  then have IH: "array_sort cmp xs = xs" by simp
  have "insert_sorted cmp x xs = x # xs"
    using Cons.prems by (cases xs) simp_all
  with IH show ?case by (simp add: array_sort_def)
qed

lemma sensitivity_pinned:
  assumes "distinct (map fst vs)" "\<forall>e\<in>set vs. pinned (snd e)" "unit_open src"
  shows "\<exists>src'. sensitivity vs b src
           = Inr (map (level_row b (level_mean 5000 (hiring_outcome (at_min vs Map.empty)))) vs, src')"
proof -
  let ?m = "level_mean 5000 (hiring_outcome (at_min vs Map.empty))"
  from map_rows_pinned [OF assms(1,2,3) subset_refl, of b] obtain src' where
    m: "map_rows vs b vs src = Inr (map (level_row b ?m) vs, src')" by blast
  have "array_sort (\<lambda>a b. js_sub (impact_percent b) (impact_percent a)) (map (level_row b ?m) vs)
      = map (level_row b ?m) vs"
    by (rule array_sort_ties) (auto simp: level_row_def js_sub_self_not_negative)
  then show ?thesis by (simp add: sensitivity_def m)
qed

lemma analysis_pinned:
  assumes "distinct (map fst vs)" "\<forall>e\<in>set vs. pinned (snd e)" "unit_open src"
  shows "analysis vs src =
     Inr (result_of (replicate 10000 (hiring_outcome (at_min vs Map.empty))),
          map (level_row (result_of (replicate 10000 (hiring_outcome (at_min vs Map.empty))))
                 (level_mean 5000 (hiring_outcome (at_min vs Map.empty)))) vs)"
proof -
  let ?b = "result_of (replicate 10000 (hiring_outcome (at_min vs Map.empty)))"
  have b: "runSimulation vs 10000 src = Inr (?b, advance (2 * length vs * 10000) src)"
    by (rule runSimulation_pinned [OF assms(2,3)]) simp
  from sensitivity_pinned [OF assms(1,2) unit_open_advance [OF assms(3), of "2 * length vs * 10000"],
      of ?b]
  show ?thesis by (auto simp: analysis_def b)
qed

text \<open>The same when the outcome is finite and a run's sum does not overflow.\<close>

lemma half_bound: "10000 * \<bar>r\<bar> < overflow \<Longrightarrow> real 5000 * \<bar>r\<bar> < overflow"
  by simp

lemma runSimulation_flat:
  assumes "\<forall>e\<in>set vs. pinned (snd e)" "unit_open src" "0 < n"
    and "hiring_outcome (at_min vs Map.empty) = Fin r" "real n * \<bar>r\<bar> < overflow"
  shows "runSimulation vs n src = Inr (flat_result r, advance (2 * length vs * n) src)"
  by (simp add: runSimulation_pinned [OF assms(1,2,3)] assms(4)
        result_of_replicate_Fin [OF assms(3,5)])

lemma map_rows_flat:
  assumes "distinct (map fst vs)" "\<forall>e\<in>set vs. pinned (snd e)" "unit_open src"
    and "hiring_outcome (at_min vs Map.empty) = Fin r" "10000 * \<bar>r\<bar> < overflow"
  shows "\<exists>src'. map_rows vs b vs src = Inr (map (flat_row b r) vs, src')"
proof -
  have "level_mean 5000 (Fin r) = Fin r"
    using half_bound [OF assms(5)] by (intro level_mean_Fin) simp_all
  with map_rows_pinned [OF assms(1,2,3) subset_refl, of b] show ?thesis
    by (auto simp: assms(4) level_row_Fin [abs_def])
qed

lemma sensitivity_flat:
  assumes "distinct (map fst vs)" "\<forall>e\<in>set vs. pinned (snd e)" "unit_open src"
    and "hiring_outcome (at_min vs Map.empty) = Fin r" "10000 * \<bar>r\<bar> < overflow"
  shows "\<exists>src'. sensitivity vs b src = Inr (map (flat_row b r) vs, src')"
proof -
  have "level_mean 5000 (Fin r) = Fin r"
    using half_bound [OF assms(5)] by (intro level_mean_Fin) simp_all
  with sensitivity_pinned [OF assms(1,2,3), of b] show ?thesis
    by (auto simp: assms(4) level_row_Fin [abs_def])
qed

lemma analysis_flat:
  assumes "distinct (map fst vs)" "\<forall>e\<in>set vs. pinned (snd e)" "unit_open src"
    and "hiring_outcome (at_min vs Map.empty) = Fin r" "10000 * \<bar>r\<bar> < overflow"
  shows "analysis vs src = Inr (flat_result r, map (flat_row (flat_result r) r) vs)"
proof -
  have "level_mean 5000 (Fin r) = Fin r"
    using half_bound [OF assms(5)] by (intro level_mean_Fin) simp_all
  moreover have "result_of (replicate 10000 (Fin r)) = flat_result r"
    using assms(5) by (intro result_of_replicate_Fin) simp_all
  ultimately show ?thesis
    by (simp add: analysis_pinned [OF assms(1,2,3)] assms(4) level_row_Fin [abs_def])
qed

subsection \<open>The concrete variable sets\<close>

lemma steady_vars_facts:
  "distinct (map fst steady_vars)" "\<forall>e\<in>set steady_vars. pinned (snd e)"
  "has_inputs steady_vars" "hiring_outcome (at_min steady_vars Map.empty) = Fin 100"
  "10000 * \<bar>100 :: real\<bar> < overflow"
  by (simp_all add: steady_vars_def flat_def pinned_def has_inputs_def model_inputs_def
        hiring_outcome_def property_def js_sub_def Let_def js_result_bounded overflow_def)

lemma idle_vars_facts:
  "distinct (map fst idle_vars)" "\<forall>e\<in>set idle_vars. pinned (snd e)"
  "has_inputs idle_vars" "hiring_outcome (at_min idle_vars Map.empty) = Fin 0"
  "10000 * \<bar>0 :: real\<bar> < overflow"
  by (simp_all add: idle_vars_def flat_def pinned_def has_inputs_def model_inputs_def
        hiring_outcome_def property_def js_sub_def Let_def js_result_bounded overflow_def)

lemma big_vars_facts:
  "distinct (map fst big_vars)" "\<forall>e\<in>set big_vars. pinned (snd e)"
  "has_inputs big_vars" "hiring_outcome (at_min big_vars Map.empty) = NInf"
  by (simp_all add: big_vars_def flat_def pinned_def has_inputs_def model_inputs_def
        hiring_outcome_def property_def js_sub_def Let_def js_result_def overflow_def)

lemma js_sum_replicate_NInf: "0 < n \<Longrightarrow> js_sum (replicate n NInf) = NInf"
proof -
  have "foldl js_add NInf (replicate m NInf) = NInf" for m by (induction m) simp_all
  then show "0 < n \<Longrightarrow> js_sum (replicate n NInf) = NInf"
    by (cases n) (simp_all add: js_sum_def)
qed

lemma level_mean_NInf: "0 < n \<Longrightarrow> level_mean n NInf = NInf"
  by (simp add: level_mean_def js_sum_replicate_NInf signed_inf_def)

lemma analysis_big:
  "analysis big_vars half_source = Inr (lost_result, map (level_row lost_result NInf) big_vars)"
proof -
  have "result_of (replicate 10000 NInf) = lost_result"
    by (simp add: result_of_replicate level_mean_NInf lost_result_def js_gt_def)
  then show ?thesis
    by (simp add: analysis_pinned [OF big_vars_facts(1,2) unit_open_half_source]
          big_vars_facts(4) level_mean_NInf)
qed

lemma runSimulation_steady:
  "runSimulation steady_vars 10000 half_source = Inr (flat_result 100, advance 120000 half_source)"
  using runSimulation_flat [OF steady_vars_facts(2) unit_open_half_source _ steady_vars_facts(4),
      of 10000] steady_vars_facts(5)
  by (simp add: steady_vars_def)

lemma simulate_steady:
  "fst (simulate 10000 steady_vars half_source) = replicate 10000 (Fin 100)"
  using simulate_pinned [OF steady_vars_facts(2) unit_open_half_source, of 10000]
  by (simp add: steady_vars_facts(4))

subsection \<open>Descending sort\<close>

lemma js_add_commute: "js_add a b = js_add b a"
  by (cases a; cases b) (simp_all add: add.commute)

lemma js_neg_neg: "js_neg (js_neg a) = a"
  by (cases a) simp_all

lemma isNaN_js_neg: "isNaN (js_neg a) = isNaN a"
  by (cases a) simp_all

lemma js_le_js_neg: "js_le (js_neg a) (js_neg b) = js_le b a"
  by (cases a; cases b) (simp_all add: js_le_def)

lemma js_neg_eq_iff: "js_neg a = js_neg b \<longleftrightarrow> a = b"
  by (metis js_neg_neg)

lemma descending_comparator:
  "(\<lambda>a b. js_sub (f b) (f a)) = (\<lambda>a b. js_sub (js_neg (f a)) (js_neg (f b)))"
  by (intro ext) (simp add: js_sub_def js_neg_neg js_add_commute)

lemma array_sort_descending:
  assumes "\<forall>y\<in>set xs. \<not> isNaN (f y)"
  shows "sorted_wrt (\<lambda>a b. js_ge (f a) (f b)) (array_sort (\<lambda>a b. js_sub (f b) (f a)) xs)"
proof -
  have "\<forall>y\<in>set xs. \<not> isNaN (js_neg (f y))" using assms by (simp add: isNaN_js_neg)
  from array_sort_sorted [of xs "\<lambda>y. js_neg (f y)", OF this] show ?thesis
    unfolding descending_comparator [of f] by (simp add: js_le_js_neg js_ge_def)
qed

lemma array_sort_descending_stable:
  assumes "\<forall>y\<in>set xs. \<not> isNaN (f y)"
  shows "filter (\<lambda>y. f y = v) (array_sort (\<lambda>a b. js_sub (f b) (f a)) xs) = filter (\<lambda>y. f y = v) xs"
proof -
  have n: "\<forall>y\<in>set xs. \<not> isNaN (js_neg (f y))" using assms by (simp add: isNaN_js_neg)
  have e: "(\<lambda>y. js_neg (f y) = js_neg v) = (\<lambda>y. f y = v)"
    by (simp add: js_neg_eq_iff)
  from array_sort_stable [of xs "\<lambda>y. js_neg (f y)" "js_neg v", OF n] show ?thesis
    unfolding descending_comparator [of f] e .
qed

subsection \<open>Variable sets without the model's inputs, continued\<close>

lemma with_base_keys: "fst ` set (with_base vs name c b) = fst ` set vs"
  by (force simp: with_base_def split: if_splits)

lemma impact_NaN: "mean_of lo = NaN \<Longrightarrow> impact lo hi b = NaN"
  by (cases "mean_of hi") (simp_all add: impact_def js_sub_def)

lemma sensitivity_row_no_salary:
  assumes "''salary'' \<notin> fst ` set vs"
  shows "sensitivity_row vs b e src =
     Inr (nan_row e, advance (10000 * length vs) (advance (10000 * length vs) src))"
proof -
  obtain name c where e: "e = (name, c)" by (cases e)
  have k: "''salary'' \<notin> fst ` set (with_base vs name c x)" for x
    using assms by (simp only: with_base_keys not_False_eq_True)
  show ?thesis
    unfolding e sensitivity_row_def
    by (simp add: runSimulation_no_salary [OF k] length_with_base nan_row_def impact_NaN)
qed

lemma map_rows_no_salary:
  assumes "''salary'' \<notin> fst ` set vs"
  shows "\<exists>src'. map_rows vs b es src = Inr (map nan_row es, src')"
proof (induction es arbitrary: src)
  case Nil
  show ?case by simp
next
  case (Cons e es)
  let ?s1 = "advance (10000 * length vs) (advance (10000 * length vs) src)"
  from Cons.IH [of ?s1] obtain s2 where "map_rows vs b es ?s1 = Inr (map nan_row es, s2)"
    by blast
  then show ?case by (simp add: sensitivity_row_no_salary [OF assms])
qed

lemma js_sub_NaN_left: "js_sub NaN x = NaN"
  by (simp add: js_sub_def)

lemma sensitivity_no_salary:
  assumes "''salary'' \<notin> fst ` set vs"
  shows "\<exists>src'. sensitivity vs b src = Inr (map nan_row vs, src')"
proof -
  from map_rows_no_salary [OF assms, of b vs src] obtain src' where
    m: "map_rows vs b vs src = Inr (map nan_row vs, src')" by blast
  have "array_sort (\<lambda>a b. js_sub (impact_percent b) (impact_percent a)) (map nan_row vs)
      = map nan_row vs"
    by (rule array_sort_ties) (auto simp: nan_row_def js_sub_NaN_left)
  then show ?thesis by (simp add: sensitivity_def m)
qed

lemma analysis_no_salary:
  assumes "''salary'' \<notin> fst ` set vs"
  shows "analysis vs src = Inr (nan_result, map nan_row vs)"
proof -
  have r: "runSimulation vs 10000 src = Inr (nan_result, advance (2 * length vs * 10000) src)"
    using runSimulation_no_salary [OF assms, of 10000 src] by (simp add: nan_result_def)
  from sensitivity_no_salary [OF assms] obtain src' where
    "sensitivity vs nan_result (advance (2 * length vs * 10000) src) = Inr (map nan_row vs, src')"
    by blast
  then show ?thesis by (simp add: analysis_def r)
qed

subsection \<open>A variable with spread beside variables without\<close>

lemma js_min_Fin: "js_min (Fin a) (Fin b) = Fin (min a b)"
  by (simp add: js_min_def min_def)

lemma js_max_Fin: "js_max (Fin a) (Fin b) = Fin (max a b)"
  by (simp add: js_max_def max_def)

lemma sqrt_two_ln_half: "0 \<le> sqrt (- 2 * ln (1 / 2))" "sqrt (- 2 * ln (1 / 2)) < 2"
proof -
  have l: "ln (1 / 2 :: real) = - ln 2" by (simp add: ln_div)
  have "ln (2::real) < 1" by (rule ln_2_less_1) 
  then have "- 2 * ln (1 / 2 :: real) < 4" unfolding l by simp
  then have "sqrt (- 2 * ln (1 / 2)) < sqrt 4" by (simp only: real_sqrt_less_iff)
  then show "sqrt (- 2 * ln (1 / 2)) < 2" by simp
  have "0 \<le> - 2 * ln (1 / 2 :: real)" unfolding l by simp
  then show "0 \<le> sqrt (- 2 * ln (1 / 2))" by simp
qed

lemma sqrt_two_ln_sixteenth: "2 \<le> sqrt (- 2 * ln (1 / 16))"
proof -
  have "exp (2::real) = exp 1 * exp 1" by (simp add: exp_add [symmetric])
  also have "\<dots> \<le> 3 * 3" by (intro mult_mono exp_le) simp_all
  finally have "exp (2::real) \<le> 16" by simp
  then have "(2::real) \<le> ln 16" by (simp add: ln_ge_iff)
  moreover have "ln (1 / 16 :: real) = - ln 16" by (simp add: ln_div)
  ultimately have "4 \<le> - 2 * ln (1 / 16 :: real)" by simp
  then have "sqrt 4 \<le> sqrt (- 2 * ln (1 / 16))" by (simp only: real_sqrt_le_iff)
  then show ?thesis by simp
qed

lemma noisy_trial:
  assumes "\<forall>k<12. src k = (if odd k then 1 / 2 else a)" "least_positive \<le> a" "a < 1"
  shows "hiring_outcome (fst (draw_samples noisy_vars Map.empty src))
       = Fin (20 * max 0 (min 2 (1 - sqrt (- 2 * ln a) / 2)) - 1)"
proof -
  define t where "t = sqrt (- 2 * ln a)"
  define y where "y = max 0 (min 2 (1 - t / 2))"
  have t: "0 \<le> t" "t \<le> 2148"
    unfolding t_def using sqrt_ln_bound [of a] assms(2,3) by simp_all
  have y: "0 \<le> y" "y \<le> 2" unfolding y_def by simp_all
  have v: "src 0 = a" "src 2 = a" "src 4 = a" "src 6 = a" "src 8 = a" "src 10 = a"
    "src 1 = 1 / 2" "src 11 = 1 / 2"
    using assms(1) by simp_all
  have p: "fst (sample_variable (flat 1) s) = Fin 1"
    if "s 0 = a" "s (Suc 0) = 1 / 2" for s :: random_source
    using sample_variable_pinned [of "flat 1" s] that assms(2,3)
    by (simp add: pinned_def flat_def)
  have q: "fst (sample_variable \<lparr>base = Fin 1, minv = Fin 0, maxv = Fin 2\<rparr> s) = Fin y"
    if "s 0 = a" "s (Suc 0) = 1 / 2" for s :: random_source
  proof -
    have "box_muller (Fin a) (Fin (1 / 2)) = Fin (sqrt (- 2 * ln a) * cos (2 * pi * (1 / 2)))"
      using assms(2,3) by (intro box_muller_Fin) simp_all
    then have z: "box_muller (Fin a) (Fin (1 / 2)) = Fin (- t)" by (simp add: t_def)
    have 1: "js_result (- (t / 2)) = Fin (- (t / 2))"
      using t by (intro js_result_bounded) argo+
    have 2: "js_result (1 - t / 2) = Fin (1 - t / 2)"
      using t by (intro js_result_bounded) argo+
    have "js_add (Fin 1) (js_mul (Fin (- t)) (js_div (js_sub (Fin 2) (Fin 0)) (Fin 4)))
        = Fin (1 - t / 2)"
      by (simp add: js_sub_def js_result_bounded 1 2)
    then show ?thesis
      by (simp only: sample_variable_def Math_random_def Let_def prod.case that z fst_conv
            config.simps js_min_Fin js_max_Fin y_def)
  qed
  have s: "advance 2 src 0 = a" "advance 2 (advance 2 src) 0 = a"
    "advance 2 (advance 2 (advance 2 src)) 0 = a"
    "advance 2 (advance 2 (advance 2 (advance 2 src))) 0 = a"
    "advance 2 (advance 2 (advance 2 (advance 2 (advance 2 src)))) 0 = a"
    "src (Suc 0) = 1 / 2"
    "advance 2 src (Suc 0) = 1 / 2" "advance 2 (advance 2 src) (Suc 0) = 1 / 2"
    "advance 2 (advance 2 (advance 2 src)) (Suc 0) = 1 / 2"
    "advance 2 (advance 2 (advance 2 (advance 2 src))) (Suc 0) = 1 / 2"
    "advance 2 (advance 2 (advance 2 (advance 2 (advance 2 src)))) (Suc 0) = 1 / 2"
    using assms(1) by (simp_all add: advance_def)
  have 3: "js_result (20 * y) = Fin (20 * y)" using y by (intro js_result_bounded) argo+
  have 4: "js_result (20 * y - 1) = Fin (20 * y - 1)" using y by (intro js_result_bounded) argo+
  have "hiring_outcome (fst (draw_samples noisy_vars Map.empty src)) = Fin (20 * y - 1)"
    unfolding noisy_vars_def draw_samples_Cons
    by (simp add: p [of src, OF v(1) s(6)] p [of "advance 2 src", OF s(1,7)]
          p [of "advance 2 (advance 2 src)", OF s(2,8)]
          p [of "advance 2 (advance 2 (advance 2 src))", OF s(3,9)]
          p [of "advance 2 (advance 2 (advance 2 (advance 2 src)))", OF s(4,10)]
          q [of "advance 2 (advance 2 (advance 2 (advance 2 (advance 2 src))))", OF s(5,11)]
          hiring_outcome_def property_def js_sub_def Let_def js_result_bounded 3 4)
  then show ?thesis unfolding y_def t_def .
qed

lemma noisy_window:
  assumes "\<forall>p<12 * n. src p = (if odd p then 1 / 2 else a)" "least_positive \<le> a" "a < 1"
  shows "fst (simulate n noisy_vars src)
       = replicate n (Fin (20 * max 0 (min 2 (1 - sqrt (- 2 * ln a) / 2)) - 1))"
proof (rule simulate_constant, intro allI impI)
  fix i assume i: "i < n"
  have l: "2 * length noisy_vars * i = 12 * i" by (simp add: noisy_vars_def)
  have "\<forall>k<12. advance (12 * i) src k = (if odd k then 1 / 2 else a)"
  proof (intro allI impI)
    fix k :: nat assume "k < 12"
    with i have "k + 12 * i < 12 * n" by simp
    with assms(1) have "src (k + 12 * i) = (if odd (k + 12 * i) then 1 / 2 else a)" by blast
    then show "advance (12 * i) src k = (if odd k then 1 / 2 else a)"
      by (simp add: advance_def)
  qed
  from noisy_trial [OF this assms(2,3)] show
    "hiring_outcome (fst (draw_samples noisy_vars Map.empty
        (advance (2 * length noisy_vars * i) src)))
      = Fin (20 * max 0 (min 2 (1 - sqrt (- 2 * ln a) / 2)) - 1)"
    unfolding l .
qed

lemma noisy_low_value: "20 * max 0 (min 2 (1 - sqrt (- 2 * ln (1 / 16)) / 2)) - 1 = (- 1 :: real)"
  using sqrt_two_ln_sixteenth by simp

lemma noisy_high_value:
  "- 1 < 20 * max 0 (min 2 (1 - sqrt (- 2 * ln (1 / 2)) / 2)) - (1 :: real)"
  using sqrt_two_ln_half by simp

lemma runSimulation_constant:
  assumes "fst (simulate n vs src) = replicate n (Fin r)" "0 < n" "real n * \<bar>r\<bar> < overflow"
  shows "runSimulation vs n src = Inr (flat_result r, advance (2 * length vs * n) src)"
  by (simp add: runSimulation_result [OF assms(2)] assms(1) array_sort_replicate
        js_sub_self_not_negative result_of_replicate_Fin [OF assms(2,3)])

lemma noisy_outcome_range: "- 1 \<le> noisy_outcome" "noisy_outcome \<le> 39"
  unfolding noisy_outcome_def by simp_all

lemma noisy_outcome_fits: "real n \<le> 10000 \<Longrightarrow> real n * \<bar>noisy_outcome\<bar> < overflow"
proof -
  assume n: "real n \<le> 10000"
  have "\<bar>noisy_outcome\<bar> \<le> 39" using noisy_outcome_range by (simp add: abs_le_iff)
  then have "real n * \<bar>noisy_outcome\<bar> \<le> 10000 * 39" using n by (intro mult_mono) simp_all
  also have "\<dots> < overflow" by (simp add: overflow_def)
  finally show ?thesis .
qed

lemma noisy_source_base: "\<forall>p<12 * 10000. noisy_source p = (if odd p then 1 / 2 else 1 / 2)"
  by (simp add: noisy_source_def)

lemma noisy_source_low:
  "\<forall>p<12 * 5000. advance 120000 noisy_source p = (if odd p then 1 / 2 else 1 / 16)"
  by (simp add: noisy_source_def advance_def)

lemma noisy_source_high:
  "\<forall>p<12 * 5000. advance 60000 (advance 120000 noisy_source) p = (if odd p then 1 / 2 else 1 / 2)"
  by (simp add: noisy_source_def advance_def)

lemma noisy_salary_unchanged:
  "with_base noisy_vars ''salary'' (flat 1) (minv (flat 1)) = noisy_vars"
  "with_base noisy_vars ''salary'' (flat 1) (maxv (flat 1)) = noisy_vars"
  by (simp_all add: noisy_vars_def with_base_def flat_def)

lemma nonzero_js_result: "x \<noteq> 0 \<Longrightarrow> nonzero (js_result x)"
  by (simp add: js_result_def)

lemma nonzero_js_div: "nonzero y \<Longrightarrow> nonzero (js_div y (Fin m))"
  by (cases y) (simp_all add: signed_inf_def nonzero_js_result)

lemma nonzero_js_mul: "nonzero y \<Longrightarrow> nonzero (js_mul y (Fin 100))"
  by (cases y) (simp_all add: signed_inf_def nonzero_js_result)

lemma nonzero_js_abs: "nonzero y \<Longrightarrow> js_abs y \<noteq> Fin 0"
  by (cases y) simp_all

lemma impact_not_zero:
  assumes "lo \<noteq> hi"
  shows "impact (flat_result lo) (flat_result hi) (flat_result m) \<noteq> Fin 0"
proof -
  have "nonzero (js_sub (Fin hi) (Fin lo))"
    using assms by (simp add: js_sub_def nonzero_js_result)
  then show ?thesis
    unfolding impact_def flat_result_def
    by (simp add: nonzero_js_div nonzero_js_mul nonzero_js_abs)
qed

lemma noisy_base_run:
  "runSimulation noisy_vars 10000 noisy_source
     = Inr (flat_result noisy_outcome, advance 120000 noisy_source)"
proof -
  have "fst (simulate 10000 noisy_vars noisy_source) = replicate 10000 (Fin noisy_outcome)"
    unfolding noisy_outcome_def
    by (rule noisy_window [OF noisy_source_base]) (simp_all add: least_positive_def)
  from runSimulation_constant [OF this _ noisy_outcome_fits] show ?thesis
    by (simp add: noisy_vars_def)
qed

lemma noisy_salary_row_computed:
  "sensitivity_row noisy_vars (flat_result noisy_outcome) (''salary'', flat 1)
      (advance 120000 noisy_source)
     = Inr (noisy_salary_row, advance 60000 (advance 60000 (advance 120000 noisy_source)))"
proof -
  have l: "10000 * length noisy_vars = 60000" by (simp add: noisy_vars_def)
  have lo: "fst (simulate 5000 noisy_vars (advance 120000 noisy_source))
      = replicate 5000 (Fin (- 1))"
    using noisy_window [OF noisy_source_low] unfolding noisy_low_value
    by (simp add: least_positive_def)
  have hi: "fst (simulate 5000 noisy_vars (advance 60000 (advance 120000 noisy_source)))
      = replicate 5000 (Fin noisy_outcome)"
    unfolding noisy_outcome_def
    by (rule noisy_window [OF noisy_source_high]) (simp_all add: least_positive_def)
  have rl: "result_of (replicate 5000 (Fin (- 1))) = flat_result (- 1)"
    by (rule result_of_replicate_Fin) (simp_all add: overflow_def)
  have rh: "result_of (replicate 5000 (Fin noisy_outcome)) = flat_result noisy_outcome"
    using noisy_outcome_fits [of 5000] by (intro result_of_replicate_Fin) simp_all
  show ?thesis
    unfolding sensitivity_row_result noisy_salary_unchanged l lo hi
    by (simp add: array_sort_replicate js_sub_self_not_negative rl rh
          noisy_salary_row_def flat_def flat_result_def)
qed

lemma noisy_analysis:
  "\<exists>rows. analysis noisy_vars noisy_source = Inr (flat_result noisy_outcome, rows)
         \<and> noisy_salary_row \<in> set rows"
proof -
  let ?b = "flat_result noisy_outcome"
  let ?s1 = "advance 120000 noisy_source"
  let ?s2 = "advance 60000 (advance 60000 ?s1)"
  obtain rest where nv: "noisy_vars = (''salary'', flat 1) # rest"
    by (simp add: noisy_vars_def)
  from map_rows_Inr [of noisy_vars ?b rest ?s2] obtain rs s3 where
    rs: "map_rows noisy_vars ?b rest ?s2 = Inr (rs, s3)" by blast
  have "map_rows noisy_vars ?b ((''salary'', flat 1) # rest) ?s1
      = Inr (noisy_salary_row # rs, s3)"
    by (simp add: noisy_salary_row_computed rs)
  then have m: "map_rows noisy_vars ?b noisy_vars ?s1 = Inr (noisy_salary_row # rs, s3)"
    using nv by simp
  have "analysis noisy_vars noisy_source =
      Inr (?b, array_sort (\<lambda>a b. js_sub (impact_percent b) (impact_percent a))
                 (noisy_salary_row # rs))"
    by (simp add: analysis_def noisy_base_run sensitivity_def m)
  moreover have "noisy_salary_row
      \<in> set (array_sort (\<lambda>a b. js_sub (impact_percent b) (impact_percent a))
                 (noisy_salary_row # rs))"
    by (simp add: set_array_sort)
  ultimately show ?thesis by blast
qed

lemma noisy_outcome_above: "- 1 < noisy_outcome"
  unfolding noisy_outcome_def by (rule noisy_high_value)


section \<open>Claims about the MCP function\<close>

text \<open>
  Claim C10. A \<open>tools/call\<close> request that names \<open>analyze_decision\<close> with an empty
  \<open>variables\<close> object is answered with status 500 and the body of the \<open>catch\<close> branch,
  whatever the decision's name and the random source: the simulation returns, the
  sensitivity list is empty, and reading its first row throws inside \<open>try\<close>.
\<close>

theorem empty_variables_answered_500:
  "handler (call_request d []) src = Inr \<lparr>status = 500, payload = Caught TypeError True\<rparr>
   \<and> (\<exists>res src'. runSimulation [] 10000 src = Inr (res, src')
         \<and> sensitivity [] res src' = Inr ([], src'))"
proof -
  have r: "runSimulation [] 10000 src = Inr (nan_result, src)"
    using runSimulation_no_salary [of "[]" 10000 src] by (simp add: nan_result_def advance_0)
  have s: "sensitivity [] nan_result src = Inr ([], src)"
    by (simp add: sensitivity_def array_sort_def)
  have "analyze_decision \<lparr>decision_name = d, tool_variables = Some []\<rparr> src = Inl TypeError"
    by (simp add: analyze_decision_def analysis_def r s)
  then have "handler (call_request d []) src = Inr \<lparr>status = 500, payload = Caught TypeError True\<rparr>"
    by (simp add: handler_def call_request_def try_block_def)
  with r s show ?thesis by blast
qed

text \<open>
  Claim C4, amended. For every run over \<open>n \<ge> 1\<close> trials in which no outcome is NaN,
  the result is computed from the outcomes sorted ascending: \<open>mean\<close> is their sum
  divided by \<open>n\<close>, \<open>median\<close>, \<open>p10\<close> and \<open>p90\<close> are the entries at the indices
  \<open>floor(n / 2)\<close>, \<open>floor(n * 0.1)\<close> and \<open>floor(n * 0.9)\<close>, \<open>prob_positive\<close> is the
  number of outcomes above 0 divided by \<open>n\<close>, and \<open>p10 <= median <= p90\<close>.
\<close>

theorem percentiles_of_sorted_outcomes:
  assumes "0 < n" and "\<forall>x\<in>set (fst (simulate n vs src)). \<not> isNaN x"
  shows "\<exists>res src' os.
           runSimulation vs n src = Inr (res, src')
         \<and> mset os = mset (fst (simulate n vs src)) \<and> length os = n
         \<and> sorted_wrt js_le os
         \<and> mean_of res = js_div (js_sum os) (Fin (real n))
         \<and> median res = os ! nat \<lfloor>real n / 2\<rfloor>
         \<and> p10 res = os ! nat \<lfloor>real n * 0.1\<rfloor>
         \<and> p90 res = os ! nat \<lfloor>real n * 0.9\<rfloor>
         \<and> prob_positive res
             = js_div (Fin (real (length (filter (\<lambda>x. js_gt x (Fin 0)) os)))) (Fin (real n))
         \<and> js_le (p10 res) (median res) \<and> js_le (median res) (p90 res)"
proof -
  let ?os = "array_sort (\<lambda>a b. js_sub a b) (fst (simulate n vs src))"
  have len: "length ?os = n" by (simp add: length_array_sort simulate_length)
  have ms: "mset ?os = mset (fst (simulate n vs src))" by (rule mset_array_sort)
  have nn: "\<forall>x\<in>set ?os. \<not> isNaN x" using assms(2) by (simp add: set_array_sort)
  have so: "sorted_wrt js_le ?os"
    using array_sort_sorted [of "fst (simulate n vs src)" "\<lambda>x. x"] assms(2) by simp
  have refl: "js_le (?os ! i) (?os ! i)" if "i < n" for i
  proof -
    have "\<not> isNaN (?os ! i)" using nn that len by (metis nth_mem)
    then show ?thesis by (cases "?os ! i") (simp_all add: js_le_def)
  qed
  have mono: "js_le (?os ! i) (?os ! j)" if "i \<le> j" "j < n" for i j
  proof (cases "i = j")
    case True
    with refl that show ?thesis by simp
  next
    case False
    with that have "i < j" by simp
    with so that(2) len show ?thesis by (simp add: sorted_wrt_iff_nth_less)
  qed
  have i: "n div 10 \<le> n div 2" "n div 2 \<le> 9 * n div 10" "9 * n div 10 < n"
    using assms(1) by auto
  have le: "js_le (?os ! (n div 10)) (?os ! (n div 2))"
      "js_le (?os ! (n div 2)) (?os ! (9 * n div 10))"
    using mono i by auto
  have n0: "real n \<noteq> 0" using assms(1) by simp
  have "length (filter (\<lambda>x. js_gt x (Fin 0)) ?os) \<le> n"
    using len length_filter_le [of "\<lambda>x. js_gt x (Fin 0)" ?os] by simp
  note pp = js_result_share [OF this]
  show ?thesis
    unfolding runSimulation_result [OF assms(1)]
    using len ms so le n0 pp
    by (intro exI [of _ "result_of ?os"] exI [of _ "advance (2 * length vs * n) src"]
          exI [of _ ?os])
       (simp add: result_of_def floor_half floor_tenth' floor_nine_tenths')
qed

theorem percentiles_of_sorted_outcomes_witness:
  "(0::nat) < 10000
   \<and> fst (simulate 10000 steady_vars half_source) = replicate 10000 (Fin 100)
   \<and> runSimulation steady_vars 10000 half_source
       = Inr (flat_result 100, advance 120000 half_source)
   \<and> js_le (p10 (flat_result 100)) (median (flat_result 100))
   \<and> js_le (median (flat_result 100)) (p90 (flat_result 100))"
proof -
  have n: "(0::nat) < 10000" by simp
  have a: "\<forall>x\<in>set (fst (simulate 10000 steady_vars half_source)). \<not> isNaN x"
    by (simp add: simulate_steady)
  from percentiles_of_sorted_outcomes [OF n a] obtain res src' where
    "runSimulation steady_vars 10000 half_source = Inr (res, src')"
    "js_le (p10 res) (median res)" "js_le (median res) (p90 res)"
    by blast
  then show ?thesis by (simp add: runSimulation_steady simulate_steady)
qed

theorem percentile_order_counterexample:
  "runSimulation [] 10000 half_source = Inr (nan_result, half_source)
   \<and> \<not> js_le (p10 nan_result) (median nan_result)
   \<and> \<not> js_le (median nan_result) (p90 nan_result)"
  using runSimulation_no_salary [of "[]" 10000 half_source]
  by (simp add: nan_result_def advance_0 js_le_def)

text \<open>
  Claim C6, amended. For every variable set the analyzer returns one row per variable,
  a rearrangement of the rows computed in the variables' order; and when no row's
  \<open>impact_percent\<close> is NaN, the rows are in descending order of \<open>impact_percent\<close> and rows
  of equal impact keep the variables' order.
\<close>

theorem rows_sorted_by_impact:
  "\<exists>rows0 rows src'.
      map_rows vs b vs src = Inr (rows0, src')
    \<and> sensitivity vs b src = Inr (rows, src')
    \<and> map variable rows0 = map fst vs
    \<and> mset rows = mset rows0
    \<and> ((\<forall>r\<in>set rows0. \<not> isNaN (impact_percent r)) \<longrightarrow>
          descending rows \<and> (\<forall>v. with_impact v rows = with_impact v rows0))"
proof -
  from sensitivity_Inr [of vs b src] obtain rows0 src' where
    m: "map_rows vs b vs src = Inr (rows0, src')"
    and s: "sensitivity vs b src =
         Inr (array_sort (\<lambda>r r'. js_sub (impact_percent r') (impact_percent r)) rows0, src')"
    and v: "map variable rows0 = map fst vs"
    by blast
  let ?rows = "array_sort (\<lambda>r r'. js_sub (impact_percent r') (impact_percent r)) rows0"
  have "mset ?rows = mset rows0" by (rule mset_array_sort)
  moreover have "descending ?rows \<and> (\<forall>v. with_impact v ?rows = with_impact v rows0)"
    if "\<forall>r\<in>set rows0. \<not> isNaN (impact_percent r)"
    unfolding descending_def with_impact_def
    using array_sort_descending [OF that] array_sort_descending_stable [OF that] by blast
  ultimately show ?thesis using m s v by blast
qed

theorem rows_sorted_by_impact_witness:
  "\<exists>src'. map_rows steady_vars (flat_result 100) steady_vars half_source
             = Inr (map (flat_row (flat_result 100) 100) steady_vars, src')
         \<and> map impact_percent (map (flat_row (flat_result 100) 100) steady_vars)
             = [Fin 0, Fin 0, Fin 0, Fin 0, Fin 0, Fin 0]
         \<and> sensitivity steady_vars (flat_result 100) half_source
             = Inr (map (flat_row (flat_result 100) 100) steady_vars, src')
         \<and> descending (map (flat_row (flat_result 100) 100) steady_vars)"
proof -
  let ?rows = "map (flat_row (flat_result 100) 100) steady_vars"
  from rows_sorted_by_impact [of steady_vars "flat_result 100" half_source]
  obtain rows0 rows src' where
    m: "map_rows steady_vars (flat_result 100) steady_vars half_source = Inr (rows0, src')"
    and s: "sensitivity steady_vars (flat_result 100) half_source = Inr (rows, src')"
    and d: "(\<forall>r\<in>set rows0. \<not> isNaN (impact_percent r)) \<longrightarrow> descending rows"
    by blast
  from map_rows_flat [OF steady_vars_facts(1,2) unit_open_half_source steady_vars_facts(4,5),
      of "flat_result 100"]
  have r0: "rows0 = ?rows" using m by auto
  from sensitivity_flat [OF steady_vars_facts(1,2) unit_open_half_source steady_vars_facts(4,5),
      of "flat_result 100"]
  have r: "rows = ?rows" using s by auto
  have i: "map impact_percent ?rows = [Fin 0, Fin 0, Fin 0, Fin 0, Fin 0, Fin 0]"
    by (simp add: steady_vars_def flat_row_def flat_result_def js_result_0)
  have "\<forall>r\<in>set rows0. \<not> isNaN (impact_percent r)"
    unfolding r0 by (simp add: flat_row_def flat_result_def js_result_0)
  with d have "descending rows" by blast
  with m s i show ?thesis unfolding r0 r by (intro exI [of _ src'] conjI)
qed

theorem descending_order_counterexample:
  "analysis other_vars half_source = Inr (nan_result, map nan_row other_vars)
   \<and> map impact_percent (map nan_row other_vars) = [NaN, NaN]
   \<and> \<not> js_ge NaN NaN
   \<and> \<not> descending (map nan_row other_vars)"
proof -
  have "''salary'' \<notin> fst ` set other_vars" by (simp add: other_vars_def)
  from analysis_no_salary [OF this, of half_source] show ?thesis
    by (simp add: other_vars_def nan_row_def descending_def js_ge_def js_le_def)
qed

text \<open>
  Claim C5, amended. When \<open>baseResults.mean\<close> is 0 the analysis raises no exception,
  and each row's \<open>impact_percent\<close> is \<open>+Infinity\<close> when the row's two means differ and
  NaN when they are equal or their difference is NaN; it is never 0.
\<close>

theorem zero_base_mean_impact:
  assumes "mean_of b = Fin 0"
  shows "\<exists>rows src'.
           sensitivity vs b src = Inr (rows, src')
         \<and> (\<forall>r\<in>set rows.
               impact_percent r =
                 (if isNaN (js_sub (outcome_at_high r) (outcome_at_low r))
                     \<or> js_sub (outcome_at_high r) (outcome_at_low r) = Fin 0
                  then NaN else PInf))"
proof -
  from sensitivity_Inr [of vs b src] obtain rows0 src' where
    s: "sensitivity vs b src =
         Inr (array_sort (\<lambda>r r'. js_sub (impact_percent r') (impact_percent r)) rows0, src')"
    and ok: "\<forall>r\<in>set rows0. row_ok b r"
    by blast
  have "impact_percent r =
      (if isNaN (js_sub (outcome_at_high r) (outcome_at_low r))
          \<or> js_sub (outcome_at_high r) (outcome_at_low r) = Fin 0
       then NaN else PInf)" if "r \<in> set rows0" for r
  proof -
    have "row_ok b r" using ok that by blast
    then show ?thesis
      unfolding row_ok_def assms
      by (cases "js_sub (outcome_at_high r) (outcome_at_low r)")
         (simp_all add: signed_inf_def)
  qed
  then show ?thesis using s by (auto simp: set_array_sort)
qed

theorem zero_base_mean_impact_witness:
  "mean_of (flat_result 0) = Fin 0
   \<and> (\<exists>rows src'. sensitivity idle_vars (flat_result 0) half_source = Inr (rows, src')
         \<and> rows = map (flat_row (flat_result 0) 0) idle_vars
         \<and> map impact_percent rows = [NaN, NaN, NaN, NaN, NaN, NaN])"
proof -
  have b: "mean_of (flat_result 0) = Fin 0" by (simp add: flat_result_def)
  from zero_base_mean_impact [OF b, of idle_vars half_source] obtain rows src' where
    s: "sensitivity idle_vars (flat_result 0) half_source = Inr (rows, src')" by blast
  from sensitivity_flat [OF idle_vars_facts(1,2) unit_open_half_source idle_vars_facts(4,5),
      of "flat_result 0"]
  have r: "rows = map (flat_row (flat_result 0) 0) idle_vars" using s by auto
  have "map impact_percent rows = [NaN, NaN, NaN, NaN, NaN, NaN]"
    unfolding r by (simp add: idle_vars_def flat_row_def flat_result_def js_result_0 signed_inf_def)
  with b s r show ?thesis by (intro conjI exI [of _ rows] exI [of _ src'])
qed

theorem zero_base_mean_counterexample:
  "analysis idle_vars half_source
     = Inr (flat_result 0, map (flat_row (flat_result 0) 0) idle_vars)
   \<and> mean_of (flat_result 0) = Fin 0
   \<and> map impact_percent (map (flat_row (flat_result 0) 0) idle_vars)
       = [NaN, NaN, NaN, NaN, NaN, NaN]"
  using analysis_flat [OF idle_vars_facts(1,2) unit_open_half_source idle_vars_facts(4,5)]
  by (simp add: idle_vars_def flat_row_def flat_result_def js_result_0 signed_inf_def)

text \<open>
  Claim C7, amended. When every variable has equal finite bounds and a numeric base, no
  uniform draw is 0 and the base result's mean is neither 0 nor NaN, every trial of
  every run has the outcome that the formula gives for the fixed values, the low and the
  high run of every variable have one and the same mean \<open>m\<close>, the mean of 5000 such
  outcomes, and the rows stay in the variables' order. \<open>impact_percent\<close> is 0 in every
  row when \<open>m\<close> is finite, and NaN in every row when it is not, which is so when an input
  of the formula is missing and when the formula or the sum overflows. Nothing is said of
  a variable without spread that stands beside variables with spread.
\<close>

theorem no_spread_no_impact:
  assumes "distinct (map fst vs)" and "\<forall>e\<in>set vs. pinned (snd e)"
    and "unit_open src" and "nonzero (mean_of b)"
  shows "\<exists>rows src' m.
           sensitivity vs b src = Inr (rows, src')
         \<and> map variable rows = map fst vs
         \<and> map row_min rows = map row_max rows
         \<and> m = js_div (js_sum (replicate 5000 (hiring_outcome (at_min vs Map.empty)))) (Fin 5000)
         \<and> (\<forall>r\<in>set rows. outcome_at_low r = m \<and> outcome_at_high r = m
               \<and> impact_percent r = (if is_fin m then Fin 0 else NaN))"
proof -
  define m where "m = level_mean 5000 (hiring_outcome (at_min vs Map.empty))"
  from sensitivity_pinned [OF assms(1,2,3), of b] obtain src' where
    s: "sensitivity vs b src = Inr (map (level_row b m) vs, src')"
    unfolding m_def by blast
  have "map variable (map (level_row b m) vs) = map fst vs"
    by (simp add: level_row_def comp_def)
  moreover have "map row_min (map (level_row b m) vs) = map row_max (map (level_row b m) vs)"
    using assms(2) by (simp add: level_row_def pinned_def)
  moreover have "m = js_div (js_sum (replicate 5000 (hiring_outcome (at_min vs Map.empty)))) (Fin 5000)"
    by (simp add: m_def level_mean_def)
  moreover have "js_abs (js_mul (js_div (js_sub m m) (mean_of b)) (Fin 100))
      = (if is_fin m then Fin 0 else NaN)"
    using assms(4) overflow_pos
    by (cases m; cases "mean_of b") (simp_all add: js_sub_def js_result_def)
  then have "\<forall>r\<in>set (map (level_row b m) vs). outcome_at_low r = m \<and> outcome_at_high r = m
               \<and> impact_percent r = (if is_fin m then Fin 0 else NaN)"
    by (simp add: level_row_def)
  ultimately show ?thesis using s by blast
qed

theorem no_spread_no_impact_witness:
  "distinct (map fst steady_vars) \<and> list_all (\<lambda>e. pinned (snd e)) steady_vars
   \<and> has_inputs steady_vars \<and> unit_open half_source
   \<and> mean_of (flat_result 100) = Fin 100 \<and> nonzero (mean_of (flat_result 100))
   \<and> js_div (js_sum (replicate 5000 (hiring_outcome (at_min steady_vars Map.empty)))) (Fin 5000)
       = Fin 100
   \<and> (\<exists>rows src'. sensitivity steady_vars (flat_result 100) half_source = Inr (rows, src')
         \<and> map variable rows = map fst steady_vars
         \<and> map outcome_at_low rows = [Fin 100, Fin 100, Fin 100, Fin 100, Fin 100, Fin 100]
         \<and> map impact_percent rows = [Fin 0, Fin 0, Fin 0, Fin 0, Fin 0, Fin 0])"
proof -
  have b: "mean_of (flat_result 100) = Fin 100" "nonzero (mean_of (flat_result 100))"
    by (simp_all add: flat_result_def)
  have "level_mean 5000 (Fin 100) = Fin 100"
    by (rule level_mean_Fin) (simp_all add: overflow_def)
  then have m: "js_div (js_sum (replicate 5000 (hiring_outcome (at_min steady_vars Map.empty))))
        (Fin 5000) = Fin 100"
    by (simp add: steady_vars_facts(4) level_mean_def)
  from no_spread_no_impact [OF steady_vars_facts(1,2) unit_open_half_source b(2)]
  obtain rows src' where
    s: "sensitivity steady_vars (flat_result 100) half_source = Inr (rows, src')"
    and v: "map variable rows = map fst steady_vars"
    and i: "\<forall>r\<in>set rows. outcome_at_low r = Fin 100 \<and> impact_percent r = Fin 0"
    unfolding m by auto
  have "length rows = 6" using v [THEN arg_cong, of length] by (simp add: steady_vars_def)
  then obtain r1 r2 r3 r4 r5 r6 where r: "rows = [r1, r2, r3, r4, r5, r6]"
    by (auto simp: length_Suc_conv numeral_eq_Suc)
  have "map outcome_at_low rows = [Fin 100, Fin 100, Fin 100, Fin 100, Fin 100, Fin 100]"
    "map impact_percent rows = [Fin 0, Fin 0, Fin 0, Fin 0, Fin 0, Fin 0]"
    using i unfolding r by simp_all
  moreover have "list_all (\<lambda>e. pinned (snd e)) steady_vars"
    using steady_vars_facts(2) by (simp add: list_all_iff)
  ultimately show ?thesis
    using s v m steady_vars_facts(1,3) unit_open_half_source b
    by (intro conjI exI [of _ rows] exI [of _ src'])
qed

theorem zero_spread_counterexample:
  "(\<exists>rows. analysis noisy_vars noisy_source = Inr (flat_result noisy_outcome, rows)
       \<and> noisy_salary_row \<in> set rows)
   \<and> variable noisy_salary_row = ''salary''
   \<and> row_min noisy_salary_row = row_max noisy_salary_row
   \<and> outcome_at_low noisy_salary_row = Fin (- 1)
   \<and> js_lt (Fin (- 1)) (outcome_at_high noisy_salary_row)
   \<and> impact_percent noisy_salary_row \<noteq> Fin 0
   \<and> analysis big_vars half_source = Inr (lost_result, map (level_row lost_result NInf) big_vars)
   \<and> map row_min (map (level_row lost_result NInf) big_vars)
       = map row_max (map (level_row lost_result NInf) big_vars)
   \<and> map impact_percent (map (level_row lost_result NInf) big_vars)
       = [NaN, NaN, NaN, NaN, NaN, NaN]"
proof -
  have "impact_percent noisy_salary_row \<noteq> Fin 0"
    using impact_not_zero [of "- 1" noisy_outcome noisy_outcome] noisy_outcome_above
    by (simp add: noisy_salary_row_def)
  moreover have "map row_min (map (level_row lost_result NInf) big_vars)
       = map row_max (map (level_row lost_result NInf) big_vars)"
    "map impact_percent (map (level_row lost_result NInf) big_vars)
       = [NaN, NaN, NaN, NaN, NaN, NaN]"
    by (simp_all add: big_vars_def level_row_def flat_def js_sub_def)
  ultimately show ?thesis
    using noisy_analysis noisy_outcome_above analysis_big by (simp add: noisy_salary_row_def)
qed

text \<open>
  Claim C9: the code departs from it. \<open>randn\<close> of the HTTP route draws again after a 0
  and computes its sample from two non-zero uniforms, but the sampler inside
  \<open>runSimulation\<close> takes the two values of \<open>Math.random\<close> as they come: on a source
  whose first value is 0 it applies the logarithm to 0, the normal value is an infinity,
  and the sample of a variable without spread is NaN. On the same source \<open>randn\<close>
  discards the 0.
\<close>

theorem unguarded_zero_draw:
  "fst (Math_random first_zero_source) = 0
   \<and> js_log (Fin (fst (Math_random first_zero_source))) = NInf
   \<and> box_muller (Fin 0) (Fin (1 / 2)) = NInf
   \<and> fst (sample_variable (flat 100) first_zero_source) = NaN
   \<and> randn (System first_zero_source)
       = Some (box_muller (Fin (1 / 2)) (Fin (1 / 2)), System (advance 3 first_zero_source))"
proof -
  have "js_cos (js_mul (js_mul (Fin 2) (Fin pi)) (Fin (1 / 2))) = Fin (- 1)"
    by (simp add: js_result_pi)
  then have b: "box_muller (Fin 0) (Fin (1 / 2)) = NInf"
    by (simp add: box_muller_def signed_inf_def)
  have "fst (sample_variable (flat 100) first_zero_source) = NaN"
    by (simp add: sample_variable_def Math_random_def first_zero_source_def b flat_def
          js_sub_def signed_inf_def js_min_def js_max_def Let_def js_result_0)
  with b randn_first_zero_source show ?thesis
    by (simp add: Math_random_def first_zero_source_def)
qed

end
